theory Spec2Isabelle
  imports Complex_Main "HOL-Library.Word"
begin

unbundle bit_operations_syntax

section \<open>Qwen3-ASR ONNX pipeline: data model\<close>

text \<open>
  The development follows \<^verbatim>\<open>qwen_asr_onnx.c\<close>. A C \<^verbatim>\<open>float\<close> is carried as
  its 32 bits (the code itself moves floats with \<^verbatim>\<open>memcpy\<close> between
  \<^verbatim>\<open>uint32_t\<close> and \<^verbatim>\<open>float\<close>), a half-precision value as its 16 bits.
\<close>

type_synonym u16 = "16 word"
type_synonym u32 = "32 word"
type_synonym f32 = "32 word"

subsection \<open>Constants\<close>

definition MAX_NEW_TOKENS :: nat where
  "MAX_NEW_TOKENS = 1024"

definition CHUNK_SIZE :: int where
  "CHUNK_SIZE = 100"

definition PROMPT_PREFIX :: "int list" where
  "PROMPT_PREFIX = [151644, 8948, 198, 151645, 198, 151644, 872, 198, 151669]"

definition N_PREFIX :: nat where
  "N_PREFIX = 9"

definition PROMPT_SUFFIX :: "int list" where
  "PROMPT_SUFFIX = [151670, 151645, 198, 151644, 77091, 198]"

definition N_SUFFIX :: nat where
  "N_SUFFIX = 6"

definition EOS_TOKENS :: "int list" where
  "EOS_TOKENS = [151643, 151645]"

definition N_EOS :: nat where
  "N_EOS = 2"

section \<open>Half-precision codec\<close>

subsection \<open>binary16 to binary32: \<^verbatim>\<open>fp16_to_f32\<close>\<close>

text \<open>
  The renormalisation loop of the subnormal branch,
  \<^verbatim>\<open>while (!(mant & 0x400)) { mant <<= 1; exp--; }\<close>, on \<^verbatim>\<open>uint32_t\<close>
  variables. Started on a value with no bit among the low eleven it would never leave,
  so it is a partial function: \<open>None\<close> stands for not returning.
\<close>

partial_function (option) fp16_norm :: "u32 \<Rightarrow> u32 \<Rightarrow> (u32 \<times> u32) option" where
  "fp16_norm mant ex =
     (if mant AND 0x400 = 0 then fp16_norm (push_bit 1 mant) (ex - 1)
      else Some (mant, ex))"

definition fp16_to_f32 :: "u16 \<Rightarrow> f32 option" where
  "fp16_to_f32 h =
     (let sign = push_bit 31 (ucast (drop_bit 15 h) :: u32);
          ex = ucast (drop_bit 10 h AND 0x1F) :: u32;
          mant = ucast (h AND 0x3FF) :: u32
      in if ex = 0 then
           if mant = 0 then Some sign
           else (case fp16_norm mant 1 of
                   None \<Rightarrow> None
                 | Some (mant', ex') \<Rightarrow>
                     Some (sign OR push_bit 23 (ex' + 127 - 15)
                                OR push_bit 13 (mant' AND 0x3FF)))
         else if ex = 31 then Some (sign OR 0x7F800000 OR push_bit 13 mant)
         else Some (sign OR push_bit 23 (ex + 127 - 15) OR push_bit 13 mant))"

subsection \<open>binary32 to binary16: the fallback loop of \<^verbatim>\<open>load_npy_fp16\<close>\<close>

text \<open>
  One iteration of the conversion loop. \<^verbatim>\<open>exp_val\<close> is an \<^verbatim>\<open>int32_t\<close>
  computed in unsigned arithmetic, so it is a word read as two's complement by the
  comparisons.
\<close>

definition load_npy_fp16_convert :: "f32 \<Rightarrow> u16" where
  "load_npy_fp16_convert bits =
     (let sign = drop_bit 16 bits AND 0x8000;
          exp_val = (drop_bit 23 bits AND 0xFF) - 127 + 15;
          mant = drop_bit 13 bits AND 0x3FF
      in if sint exp_val \<le> 0 then ucast sign
         else if 31 \<le> sint exp_val then ucast (sign OR 0x7C00)
         else ucast (sign OR push_bit 10 exp_val OR mant))"

definition load_npy_fp16_fallback :: "f32 list \<Rightarrow> u16 list" where
  "load_npy_fp16_fallback tmp = map load_npy_fp16_convert tmp"

subsection \<open>IEEE 754 reading of the two formats\<close>

datatype fp_class = FZero | FSubnormal | FNormal | FInfinity | FNaN

definition fp_classify :: "nat \<Rightarrow> nat \<Rightarrow> nat \<Rightarrow> fp_class" where
  "fp_classify emax e m =
     (if e = 0 then (if m = 0 then FZero else FSubnormal)
      else if e = emax then (if m = 0 then FInfinity else FNaN)
      else FNormal)"

definition fp16_sign :: "u16 \<Rightarrow> bool" where
  "fp16_sign h = bit h 15"

definition fp16_exp :: "u16 \<Rightarrow> nat" where
  "fp16_exp h = unat (drop_bit 10 h AND 0x1F)"

definition fp16_mant :: "u16 \<Rightarrow> nat" where
  "fp16_mant h = unat (h AND 0x3FF)"

definition fp16_class :: "u16 \<Rightarrow> fp_class" where
  "fp16_class h = fp_classify 31 (fp16_exp h) (fp16_mant h)"

text \<open>The rational number a finite binary16 pattern denotes (bias 15, 10 fraction bits).\<close>

definition fp16_value :: "u16 \<Rightarrow> rat" where
  "fp16_value h =
     (if fp16_sign h then - 1 else 1) *
     (if fp16_exp h = 0 then of_nat (fp16_mant h) / 2 ^ 24
      else of_nat (1024 + fp16_mant h) * 2 ^ fp16_exp h / 2 ^ 25)"

definition f32_sign :: "f32 \<Rightarrow> bool" where
  "f32_sign f = bit f 31"

definition f32_exp :: "f32 \<Rightarrow> nat" where
  "f32_exp f = unat (drop_bit 23 f AND 0xFF)"

definition f32_mant :: "f32 \<Rightarrow> nat" where
  "f32_mant f = unat (f AND 0x7FFFFF)"

definition f32_class :: "f32 \<Rightarrow> fp_class" where
  "f32_class f = fp_classify 255 (f32_exp f) (f32_mant f)"

text \<open>The rational number a finite binary32 pattern denotes (bias 127, 23 fraction bits).\<close>

definition f32_value :: "f32 \<Rightarrow> rat" where
  "f32_value f =
     (if f32_sign f then - 1 else 1) *
     (if f32_exp f = 0 then of_nat (f32_mant f) / 2 ^ 149
      else of_nat (2 ^ 23 + f32_mant f) * 2 ^ f32_exp f / 2 ^ 150)"

text \<open>
  Distance in units in the last place between two binary16 patterns: each pattern is
  placed on the integer line by its magnitude bits, negated under the sign bit.
\<close>

definition fp16_ord :: "u16 \<Rightarrow> int" where
  "fp16_ord h = (if fp16_sign h then - int (unat (h AND 0x7FFF)) else int (unat (h AND 0x7FFF)))"

definition fp16_ulp_dist :: "u16 \<Rightarrow> u16 \<Rightarrow> int" where
  "fp16_ulp_dist a b = \<bar>fp16_ord a - fp16_ord b\<bar>"

definition fp16_roundtrip :: "u16 \<Rightarrow> u16 option" where
  "fp16_roundtrip h = map_option load_npy_fp16_convert (fp16_to_f32 h)"


text \<open>
  Bit layout used when a binary16 pattern is put together from its three fields.
\<close>

definition fp16_pack :: "bool \<Rightarrow> nat \<Rightarrow> nat \<Rightarrow> u16" where
  "fp16_pack s e m =
     push_bit 15 (of_bool s) OR push_bit 10 (take_bit 5 (of_nat e)) OR take_bit 10 (of_nat m)"

subsection \<open>Comparing floats\<close>

text \<open>
  The C comparison \<^verbatim>\<open>a > b\<close> on \<^verbatim>\<open>float\<close> is the IEEE 754 one: false as soon
  as one side is a NaN, otherwise the order of the sign-magnitude readings of the two
  patterns (both zeros read as 0). The magnitude \<open>f32_mag\<close> is the exponent and
  mantissa fields read as one number; \<open>f32_scaled\<close> is the absolute value of a
  pattern in units of \<open>2\<^sup>-\<^sup>1\<^sup>5\<^sup>0\<close>, and the order of the readings is shown below
  to be the order of the values.
\<close>

definition f32_is_nan :: "f32 \<Rightarrow> bool" where
  "f32_is_nan f = (f32_exp f = 255 \<and> f32_mant f \<noteq> 0)"

definition f32_mag :: "f32 \<Rightarrow> nat" where
  "f32_mag f = f32_exp f * 2 ^ 23 + f32_mant f"

definition f32_ord :: "f32 \<Rightarrow> int" where
  "f32_ord f = (if f32_sign f then - int (f32_mag f) else int (f32_mag f))"

definition f32_scaled :: "nat \<Rightarrow> nat \<Rightarrow> nat" where
  "f32_scaled e m = (if e = 0 then 2 * m else (2 ^ 23 + m) * 2 ^ e)"

definition f32_gt :: "f32 \<Rightarrow> f32 \<Rightarrow> bool" where
  "f32_gt a b = (\<not> f32_is_nan a \<and> \<not> f32_is_nan b \<and> f32_ord b < f32_ord a)"

definition f32_ge :: "f32 \<Rightarrow> f32 \<Rightarrow> bool" where
  "f32_ge a b = (\<not> f32_is_nan a \<and> \<not> f32_is_nan b \<and> f32_ord b \<le> f32_ord a)"

section \<open>Helpers\<close>

text \<open>\<^verbatim>\<open>is_eos\<close>: the scan of \<^verbatim>\<open>EOS_TOKENS\<close>.\<close>

definition is_eos :: "int \<Rightarrow> bool" where
  "is_eos token = list_ex (\<lambda>i. token = EOS_TOKENS ! i) [0..<N_EOS]"

text \<open>
  \<^verbatim>\<open>argmax_f32\<close>: \<open>best\<close> starts at index 0 and moves only on a strictly greater
  value. The loop variable runs from 1 to \<open>n - 1\<close>.
\<close>

function argmax_loop :: "f32 list \<Rightarrow> nat \<Rightarrow> nat \<Rightarrow> nat \<Rightarrow> f32 \<Rightarrow> nat" where
  "argmax_loop data n i best best_val =
     (if i < n then
        (if f32_gt (data ! i) best_val then argmax_loop data n (i + 1) i (data ! i)
         else argmax_loop data n (i + 1) best best_val)
      else best)"
  by pat_completeness auto
termination
  by (relation "measure (\<lambda>(data, n, i, best, best_val). n - i)") auto

declare argmax_loop.simps [simp del]

definition argmax_f32 :: "f32 list \<Rightarrow> nat \<Rightarrow> nat" where
  "argmax_f32 data n = argmax_loop data n 1 0 (data ! 0)"

text \<open>
  \<^verbatim>\<open>embed_token_fp16\<close>: row \<open>token_id\<close> of the memory-mapped matrix, read through the
  pointer \<^verbatim>\<open>embed_fp16 + token_id * hidden_dim\<close> without any bound check, each half
  converted by \<open>fp16_to_f32\<close> (which always returns, see \<open>fp16_to_f32_returns\<close>).
  The mapped memory is a function from the offset in halves.
\<close>

definition embed_token_fp16 :: "(nat \<Rightarrow> u16) \<Rightarrow> int \<Rightarrow> nat \<Rightarrow> f32 list" where
  "embed_token_fp16 embed_fp16 token_id hidden_dim =
     map (\<lambda>i. the (fp16_to_f32 (embed_fp16 (nat token_id * hidden_dim + i)))) [0..<hidden_dim]"

text \<open>\<^verbatim>\<open>memcpy(dst + off, src, length src)\<close> on a buffer held as a list.\<close>

definition memcpy_at :: "'a list \<Rightarrow> nat \<Rightarrow> 'a list \<Rightarrow> 'a list" where
  "memcpy_at dst off src = take off dst @ src @ drop (off + length src) dst"

section \<open>Context and the ONNX Runtime seen from the orchestrator\<close>

datatype slot = Encoder | Prefill | Decode

text \<open>
  \<^verbatim>\<open>struct qwen_onnx_ctx\<close>. A session pointer is kept as the flag "not NULL"; the
  API handle, environment and memory info never change during a transcription and are
  left out. \<^verbatim>\<open>vocab_size\<close> and \<^verbatim>\<open>hidden_dim\<close> are positive: the loader rejects a
  matrix with \<^verbatim>\<open>r <= 0 || c <= 0\<close>.
\<close>

record qwen_onnx_ctx =
  encoder :: bool
  prefill :: bool
  decode :: bool
  embed_tokens_fp16 :: "nat \<Rightarrow> u16"
  vocab_size :: nat
  hidden_dim :: nat
  n_layers :: nat
  tokenizer :: "int \<Rightarrow> string option"
  keep_sessions :: bool

text \<open>
  Every place of \<^verbatim>\<open>qwen_onnx_transcribe\<close> that can fail without producing data:
  the allocations that are checked and the calls wrapped in \<^verbatim>\<open>ORT_CHECK\<close>.
\<close>

datatype site =
    Alloc_generated
  | Tensor_enc_input
  | Shape_enc_output
  | Dims_enc_output
  | Data_enc_output
  | Output_count
  | Alloc_outputs
  | Alloc_input_embeds
  | Tensor_prefill_input
  | Data_prefill_logits
  | Alloc_decode_token_buf
  | Tensor_decode_token
  | Tensor_decode_pos
  | Data_decode_logits nat

text \<open>
  What the orchestrator calls but does not define: the mel extractor, the tokenizer
  constant, ONNX Runtime and the three model graphs. The key/value caches are opaque
  values of type \<open>'kv\<close>. \<open>heap_garbage\<close> is the content of freshly
  \<^verbatim>\<open>malloc\<close>ed memory.
\<close>

record 'kv ort =
  QWEN_MEL_BINS :: nat
  QWEN_TOKEN_ASR_TEXT :: int
  qwen_mel_spectrogram :: "f32 list \<Rightarrow> int \<Rightarrow> (f32 list \<times> int) option"
  create_session_with_fallback :: "slot \<Rightarrow> bool"
  ort_ok :: "site \<Rightarrow> bool"
  heap_garbage :: "nat \<Rightarrow> f32"
  run_encoder :: "f32 list \<Rightarrow> int \<Rightarrow> (f32 list \<times> nat) option"
  SessionGetOutputCount :: nat
  run_prefill :: "f32 list \<Rightarrow> nat \<Rightarrow> (f32 list \<times> 'kv) option"
  run_decode :: "f32 list \<Rightarrow> int \<Rightarrow> 'kv \<Rightarrow> (f32 list \<times> 'kv) option"

subsection \<open>Session slots and the log of session events\<close>

datatype event = CreateSession slot | ReleaseSession slot | Run slot

text \<open>
  The state threaded through a transcription: the context and, for the lifecycle
  properties, every session event so far with the three slots
  \<open>(encoder, prefill, decode)\<close> as they were when it happened.
\<close>

type_synonym slots = "bool \<times> bool \<times> bool"
type_synonym tstate = "qwen_onnx_ctx \<times> (event \<times> slots) list"

definition slots_of :: "qwen_onnx_ctx \<Rightarrow> slots" where
  "slots_of c = (encoder c, prefill c, decode c)"

definition slot_loaded :: "slot \<Rightarrow> qwen_onnx_ctx \<Rightarrow> bool" where
  "slot_loaded s c = (case s of Encoder \<Rightarrow> encoder c | Prefill \<Rightarrow> prefill c | Decode \<Rightarrow> decode c)"

definition set_slot :: "slot \<Rightarrow> bool \<Rightarrow> qwen_onnx_ctx \<Rightarrow> qwen_onnx_ctx" where
  "set_slot s v c =
     (case s of Encoder \<Rightarrow> c\<lparr>encoder := v\<rparr> | Prefill \<Rightarrow> c\<lparr>prefill := v\<rparr>
      | Decode \<Rightarrow> c\<lparr>decode := v\<rparr>)"

definition emit :: "event \<Rightarrow> tstate \<Rightarrow> tstate" where
  "emit e st = (fst st, snd st @ [(e, slots_of (fst st))])"

text \<open>
  On-demand loading, \<^verbatim>\<open>if (!ctx->encoder) { if (!create_session_with_fallback(...))
  goto cleanup; }\<close>: \<open>None\<close> is the jump to \<^verbatim>\<open>cleanup\<close>, with the slot still
  NULL.
\<close>

definition load_on_demand :: "'kv ort \<Rightarrow> slot \<Rightarrow> tstate \<Rightarrow> tstate option" where
  "load_on_demand w s st =
     (if slot_loaded s (fst st) then Some st
      else if create_session_with_fallback w s
           then Some (set_slot s True (fst st), snd (emit (CreateSession s) st))
      else None)"

text \<open>\<^verbatim>\<open>if (ctx->encoder && !ctx->keep_sessions) { ReleaseSession; ctx->encoder = NULL; }\<close>\<close>

definition release_stage :: "slot \<Rightarrow> tstate \<Rightarrow> tstate" where
  "release_stage s st =
     (if slot_loaded s (fst st) \<and> \<not> keep_sessions (fst st)
      then (set_slot s False (fst st), snd (emit (ReleaseSession s) st))
      else st)"

text \<open>The session part of the \<^verbatim>\<open>cleanup\<close> label.\<close>

definition cleanup :: "tstate \<Rightarrow> tstate" where
  "cleanup st =
     (if \<not> keep_sessions (fst st)
      then release_stage Decode (release_stage Prefill (release_stage Encoder st))
      else st)"


section \<open>\<^verbatim>\<open>qwen_onnx_transcribe\<close>\<close>

subsection \<open>Step 1: padding the mel spectrogram\<close>

text \<open>C's \<^verbatim>\<open>%\<close> on \<^verbatim>\<open>int\<close> truncates towards zero.\<close>

definition c_rem :: "int \<Rightarrow> int \<Rightarrow> int" where
  "c_rem a b = sgn a * (\<bar>a\<bar> mod \<bar>b\<bar>)"

text \<open>
  \<^verbatim>\<open>pad_frames = (CHUNK_SIZE - (n_frames % CHUNK_SIZE)) % CHUNK_SIZE\<close>; when it is
  positive a zeroed buffer of \<^verbatim>\<open>QWEN_MEL_BINS * padded_frames\<close> floats receives
  the first \<^verbatim>\<open>QWEN_MEL_BINS * n_frames\<close> floats of \<open>mel\<close> in one
  \<^verbatim>\<open>memcpy\<close>. Frame counts stay far below \<^verbatim>\<open>INT_MAX\<close>, so \<open>int\<close> stands
  for the C \<^verbatim>\<open>int\<close>.
\<close>

definition pad_mel :: "nat \<Rightarrow> f32 list \<Rightarrow> int \<Rightarrow> f32 list \<times> int" where
  "pad_mel mel_bins mel n_frames =
     (let pad_frames = c_rem (CHUNK_SIZE - c_rem n_frames CHUNK_SIZE) CHUNK_SIZE;
          padded_frames = n_frames + pad_frames
      in if pad_frames > 0
         then (memcpy_at (replicate (mel_bins * nat padded_frames) 0) 0
                 (take (mel_bins * nat n_frames) mel), padded_frames)
         else (mel, padded_frames))"

text \<open>
  The encoder input is declared with shape \<^verbatim>\<open>{1, QWEN_MEL_BINS, padded_frames}\<close>
  over the buffer, so the value of bin \<open>b\<close> in frame (column) \<open>t\<close> of a matrix with
  \<open>frames\<close> columns sits at \<open>b * frames + t\<close>.
\<close>

definition mel_at :: "f32 list \<Rightarrow> nat \<Rightarrow> nat \<Rightarrow> nat \<Rightarrow> f32" where
  "mel_at mel frames b t = mel ! (b * frames + t)"

subsection \<open>Step 3: the prompt embedding buffer\<close>

definition build_input_embeds ::
  "qwen_onnx_ctx \<Rightarrow> f32 list \<Rightarrow> nat \<Rightarrow> f32 list \<Rightarrow> f32 list" where
  "build_input_embeds c audio_embeds n_audio input_embeds =
     (let hidden = hidden_dim c;
          b1 = fold (\<lambda>i buf. memcpy_at buf (i * hidden)
                  (embed_token_fp16 (embed_tokens_fp16 c) (PROMPT_PREFIX ! i) hidden))
                [0..<N_PREFIX] input_embeds;
          b2 = memcpy_at b1 (N_PREFIX * hidden) (take (n_audio * hidden) audio_embeds)
      in fold (\<lambda>i buf. memcpy_at buf ((N_PREFIX + n_audio + i) * hidden)
                  (embed_token_fp16 (embed_tokens_fp16 c) (PROMPT_SUFFIX ! i) hidden))
           [0..<N_SUFFIX] b2)"

subsection \<open>Steps 1b and 2: encoder\<close>

definition encoder_stage ::
  "'kv ort \<Rightarrow> f32 list \<Rightarrow> int \<Rightarrow> tstate \<Rightarrow> tstate \<times> (f32 list \<times> nat) option" where
  "encoder_stage w mel padded_frames st0 =
     (case load_on_demand w Encoder st0 of
        None \<Rightarrow> (st0, None)
      | Some st1 \<Rightarrow>
          if \<not> ort_ok w Tensor_enc_input then (st1, None)
          else let st2 = emit (Run Encoder) st1 in
            (case run_encoder w mel padded_frames of
               None \<Rightarrow> (st2, None)
             | Some (audio_embeds, n_audio) \<Rightarrow>
                 if \<not> ort_ok w Shape_enc_output \<or> \<not> ort_ok w Dims_enc_output
                    \<or> \<not> ort_ok w Data_enc_output
                 then (st2, None)
                 else (release_stage Encoder st2, Some (audio_embeds, n_audio))))"

subsection \<open>Steps 2b to 4: prefill\<close>

text \<open>
  \<^verbatim>\<open>ctx->n_layers = (int)(n_outputs - 1) / 2\<close> with \<^verbatim>\<open>size_t n_outputs\<close>: for
  a count of 0 the cast gives \<open>-1\<close> and the quotient 0, which is also what the
  truncated subtraction of \<open>nat\<close> gives.
\<close>

definition prefill_stage ::
  "'kv ort \<Rightarrow> f32 list \<Rightarrow> nat \<Rightarrow> tstate \<Rightarrow> tstate \<times> (nat \<times> int \<times> 'kv) option" where
  "prefill_stage w audio_embeds n_audio st0 =
     (case load_on_demand w Prefill st0 of
        None \<Rightarrow> (st0, None)
      | Some st1 \<Rightarrow>
          if n_layers (fst st1) = 0 \<and> \<not> ort_ok w Output_count then (st1, None)
          else let st2 = (if n_layers (fst st1) = 0
                          then ((fst st1)\<lparr>n_layers := (SessionGetOutputCount w - 1) div 2\<rparr>, snd st1)
                          else st1);
                   c = fst st2;
                   prompt_len = N_PREFIX + n_audio + N_SUFFIX
            in if \<not> ort_ok w Alloc_outputs \<or> \<not> ort_ok w Alloc_input_embeds then (st2, None)
               else let input_embeds = build_input_embeds c audio_embeds n_audio
                          (map (heap_garbage w) [0..<prompt_len * hidden_dim c])
                 in if \<not> ort_ok w Tensor_prefill_input then (st2, None)
                    else let st3 = emit (Run Prefill) st2 in
                      (case run_prefill w input_embeds prompt_len of
                         None \<Rightarrow> (st3, None)
                       | Some (logits, kv) \<Rightarrow>
                           if \<not> ort_ok w Data_prefill_logits then (st3, None)
                           else (release_stage Prefill st3,
                                 Some (prompt_len, int (argmax_f32 logits (vocab_size c)), kv))))"

subsection \<open>Step 5: the decode loop\<close>

text \<open>
  \<^verbatim>\<open>for (int step = 0; step < MAX_NEW_TOKENS - 1; step++)\<close>. \<open>generated\<close> is the
  filled part of the array, so \<^verbatim>\<open>n_generated\<close> is its length. \<open>None\<close> is the jump
  to \<^verbatim>\<open>cleanup\<close> from inside the loop.
\<close>

function decode_loop ::
  "'kv ort \<Rightarrow> nat \<Rightarrow> nat \<Rightarrow> int \<Rightarrow> int list \<Rightarrow> 'kv \<Rightarrow> tstate \<Rightarrow> tstate \<times> int list option" where
  "decode_loop w prompt_len step token generated kv st =
     (if step < MAX_NEW_TOKENS - 1 then
        if is_eos token then (st, Some generated)
        else let c = fst st;
                 decode_token_buf = embed_token_fp16 (embed_tokens_fp16 c) token (hidden_dim c);
                 decode_pos_val = int (prompt_len + step);
                 st' = emit (Run Decode) st
          in (case run_decode w decode_token_buf decode_pos_val kv of
                None \<Rightarrow> (st', None)
              | Some (logits, kv') \<Rightarrow>
                  if \<not> ort_ok w (Data_decode_logits step) then (st', None)
                  else let token' = int (argmax_f32 logits (vocab_size c))
                    in decode_loop w prompt_len (step + 1) token' (generated @ [token']) kv' st')
      else (st, Some generated))"
  by pat_completeness auto
termination
  by (relation "measure (\<lambda>(w, prompt_len, step, token, generated, kv, st). MAX_NEW_TOKENS - 1 - step)")
    auto

declare decode_loop.simps [simp del]

definition decode_stage ::
  "'kv ort \<Rightarrow> nat \<Rightarrow> int \<Rightarrow> 'kv \<Rightarrow> tstate \<Rightarrow> tstate \<times> int list option" where
  "decode_stage w prompt_len first_token kv st0 =
     (case load_on_demand w Decode st0 of
        None \<Rightarrow> (st0, None)
      | Some st1 \<Rightarrow>
          if \<not> ort_ok w Alloc_decode_token_buf \<or> \<not> ort_ok w Tensor_decode_token
             \<or> \<not> ort_ok w Tensor_decode_pos
          then (st1, None)
          else decode_loop w prompt_len 0 first_token [first_token] kv st1)"

subsection \<open>Step 6: tokens to text\<close>

text \<open>\<^verbatim>\<open>while (n_generated > 0 && is_eos(generated[n_generated - 1])) n_generated--;\<close>\<close>

function strip_eos :: "int list \<Rightarrow> int list" where
  "strip_eos generated =
     (if generated \<noteq> [] \<and> is_eos (last generated) then strip_eos (butlast generated)
      else generated)"
  by pat_completeness auto
termination
  by (relation "measure length") auto

declare strip_eos.simps [simp del]

text \<open>
  Appending one piece to the text buffer. The buffer is its content \<open>text\<close> (of
  \<^verbatim>\<open>text_len\<close> bytes, followed by the terminator) and its capacity
  \<^verbatim>\<open>text_cap\<close>; the capacity is doubled once when the piece does not fit. \<open>None\<close>
  is a copy that would run past the end of the buffer even then.
\<close>

definition text_append :: "string \<times> nat \<Rightarrow> string \<Rightarrow> (string \<times> nat) option" where
  "text_append buf piece =
     (let text = fst buf; text_cap = snd buf; plen = length piece;
          text_cap' = (if length text + plen + 1 > text_cap then text_cap * 2 else text_cap)
      in if length text + plen + 1 > text_cap' then None
         else Some (text @ piece, text_cap'))"

text \<open>
  First loop: pieces of the tokens behind \<^verbatim>\<open>QWEN_TOKEN_ASR_TEXT\<close>; the flag
  \<^verbatim>\<open>past_asr_text\<close> is returned with the buffer. A token for which the tokenizer
  has no piece (\<^verbatim>\<open>NULL\<close>) is skipped.
\<close>

fun decode_past_asr_text ::
  "(int \<Rightarrow> string option) \<Rightarrow> int \<Rightarrow> int list \<Rightarrow> bool \<Rightarrow> string \<times> nat \<Rightarrow>
     ((string \<times> nat) \<times> bool) option" where
  "decode_past_asr_text tk asr [] past_asr_text buf = Some (buf, past_asr_text)"
| "decode_past_asr_text tk asr (g # gs) past_asr_text buf =
     (if g = asr then decode_past_asr_text tk asr gs True buf
      else if \<not> past_asr_text then decode_past_asr_text tk asr gs past_asr_text buf
      else (case tk g of
              None \<Rightarrow> decode_past_asr_text tk asr gs past_asr_text buf
            | Some piece \<Rightarrow>
                (case text_append buf piece of
                   None \<Rightarrow> None
                 | Some buf' \<Rightarrow> decode_past_asr_text tk asr gs past_asr_text buf')))"

text \<open>Second loop, run when the marker never came: every token below 151643.\<close>

fun decode_all_tokens ::
  "(int \<Rightarrow> string option) \<Rightarrow> int list \<Rightarrow> string \<times> nat \<Rightarrow> (string \<times> nat) option" where
  "decode_all_tokens tk [] buf = Some buf"
| "decode_all_tokens tk (g # gs) buf =
     (if g \<ge> 151643 then decode_all_tokens tk gs buf
      else (case tk g of
              None \<Rightarrow> decode_all_tokens tk gs buf
            | Some piece \<Rightarrow>
                (case text_append buf piece of
                   None \<Rightarrow> None
                 | Some buf' \<Rightarrow> decode_all_tokens tk gs buf')))"

definition is_trimmed_char :: "char \<Rightarrow> bool" where
  "is_trimmed_char c = (c = CHR '' '' \<or> c = CHR 0x0A \<or> c = CHR 0x09)"

text \<open>
  \<open>start\<close> moves right over the leading blanks and stops at the terminator at the
  latest; \<open>end\<close> moves left from \<^verbatim>\<open>text + text_len\<close> while it is beyond
  \<open>start\<close>.
\<close>

definition trim :: "string \<Rightarrow> string" where
  "trim text = rev (dropWhile is_trimmed_char (rev (dropWhile is_trimmed_char text)))"

definition detokenize :: "(int \<Rightarrow> string option) \<Rightarrow> int \<Rightarrow> int list \<Rightarrow> string option" where
  "detokenize tk asr generated =
     (let gen = strip_eos generated in
      case decode_past_asr_text tk asr gen False ([], 4096) of
        None \<Rightarrow> None
      | Some (buf, past_asr_text) \<Rightarrow>
          (case (if \<not> past_asr_text then decode_all_tokens tk gen ([], snd buf) else Some buf) of
             None \<Rightarrow> None
           | Some buf' \<Rightarrow> Some (trim (fst buf'))))"

subsection \<open>The whole call\<close>

datatype tresult = NoResult | Text string | TextOverrun

definition transcribe_body ::
  "'kv ort \<Rightarrow> qwen_onnx_ctx \<Rightarrow> f32 list \<Rightarrow> int \<Rightarrow> tstate \<times> tresult" where
  "transcribe_body w c samples n_samples =
     (let st0 = (c, []) in
      if \<not> ort_ok w Alloc_generated then (st0, NoResult)
      else (case qwen_mel_spectrogram w samples n_samples of
              None \<Rightarrow> (st0, NoResult)
            | Some (mel, n_frames) \<Rightarrow>
                let padded = pad_mel (QWEN_MEL_BINS w) mel n_frames in
                (case encoder_stage w (fst padded) (snd padded) st0 of
                   (st1, None) \<Rightarrow> (st1, NoResult)
                 | (st1, Some (audio_embeds, n_audio)) \<Rightarrow>
                     (case prefill_stage w audio_embeds n_audio st1 of
                        (st2, None) \<Rightarrow> (st2, NoResult)
                      | (st2, Some (prompt_len, first_token, kv)) \<Rightarrow>
                          (case decode_stage w prompt_len first_token kv st2 of
                             (st3, None) \<Rightarrow> (st3, NoResult)
                           | (st3, Some generated) \<Rightarrow>
                               (st3, case detokenize (tokenizer c) (QWEN_TOKEN_ASR_TEXT w) generated of
                                       None \<Rightarrow> TextOverrun
                                     | Some text \<Rightarrow> Text text))))))"

text \<open>
  The returned triple is the result pointer, the context after the call and the session
  events of the call. The guard returns before anything is allocated; every other path
  goes through \<^verbatim>\<open>cleanup\<close>.
\<close>

definition qwen_onnx_transcribe ::
  "'kv ort \<Rightarrow> qwen_onnx_ctx option \<Rightarrow> f32 list option \<Rightarrow> int \<Rightarrow>
     tresult \<times> qwen_onnx_ctx option \<times> (event \<times> slots) list" where
  "qwen_onnx_transcribe w ctx samples n_samples =
     (case ctx of
        None \<Rightarrow> (NoResult, None, [])
      | Some c \<Rightarrow>
          (case samples of
             None \<Rightarrow> (NoResult, Some c, [])
           | Some smp \<Rightarrow>
               if n_samples \<le> 0 then (NoResult, Some c, [])
               else let r = transcribe_body w c smp n_samples; st = cleanup (fst r)
                 in (snd r, Some (fst st), snd st)))"

section \<open>Notions used to state the properties\<close>

text \<open>
  Index \<open>r\<close> attains the maximum of \<open>data\<close> when its element is a number and is
  greater than or equal to every number of the array, compared as floats; a NaN is no
  number and compares with nothing, so a NaN element is passed over and never is the
  maximum. Index \<open>r\<close> is the first such index when no smaller index attains the
  maximum.
\<close>

definition attains_max :: "f32 list \<Rightarrow> nat \<Rightarrow> bool" where
  "attains_max data r =
     (r < length data \<and> \<not> f32_is_nan (data ! r) \<and>
      (\<forall>j<length data. f32_is_nan (data ! j) \<or> f32_ge (data ! r) (data ! j)))"

definition first_max_index :: "f32 list \<Rightarrow> nat \<Rightarrow> bool" where
  "first_max_index data r = (attains_max data r \<and> (\<forall>j<r. \<not> attains_max data j))"

text \<open>
  \<open>f\<close> is the binary32 form of the half \<open>h\<close>: it is what the conversion returns,
  it has the sign of \<open>h\<close>, and it is the same number when \<open>h\<close> is finite, the
  infinity or NaN with the mantissa bits of \<open>h\<close> otherwise.
\<close>

definition is_fp32_of :: "u16 \<Rightarrow> f32 \<Rightarrow> bool" where
  "is_fp32_of h f =
     (fp16_to_f32 h = Some f \<and> f32_sign f = fp16_sign h \<and>
      (if fp16_exp h < 31 then f32_value f = fp16_value h
       else f32_exp f = 255 \<and> f32_mant f = 2 ^ 13 * fp16_mant h))"

text \<open>The concatenation of the decoded pieces of a token list; a missing piece adds nothing.\<close>

definition pieces :: "(int \<Rightarrow> string option) \<Rightarrow> int list \<Rightarrow> string" where
  "pieces tk ts = concat (map (\<lambda>t. case tk t of None \<Rightarrow> [] | Some piece \<Rightarrow> piece) ts)"

text \<open>
  The staging of the sessions: whenever a session runs, it is the only one loaded.
\<close>

definition staged :: "(event \<times> slots) list \<Rightarrow> bool" where
  "staged evs = list_all (\<lambda>(e, s).
      (e = Run Encoder \<longrightarrow> s = (True, False, False)) \<and>
      (e = Run Prefill \<longrightarrow> s = (False, True, False)) \<and>
      (e = Run Decode \<longrightarrow> s = (False, False, True))) evs"

text \<open>
  The session events of a transcription that reaches the end of the decode loop after
  \<open>k\<close> runs of the decode session, up to the final release.
\<close>

definition staged_run :: "nat \<Rightarrow> (event \<times> slots) list" where
  "staged_run k =
     [(CreateSession Encoder, (False, False, False)), (Run Encoder, (True, False, False)),
      (ReleaseSession Encoder, (True, False, False)),
      (CreateSession Prefill, (False, False, False)), (Run Prefill, (False, True, False)),
      (ReleaseSession Prefill, (False, True, False)),
      (CreateSession Decode, (False, False, False))]
     @ replicate k (Run Decode, (False, False, True))"

text \<open>
  A small configuration on which the theorems are instantiated: two mel bins, a hidden
  size of two, three logits, sessions that always load, and a decode graph that fails at
  position 19.
\<close>

definition demo_ctx :: qwen_onnx_ctx where
  "demo_ctx = \<lparr>encoder = False, prefill = False, decode = False,
     embed_tokens_fp16 = (\<lambda>i. 0x3C00), vocab_size = 3, hidden_dim = 2, n_layers = 0,
     tokenizer = (\<lambda>t. if t = 1 then Some ''hi '' else None), keep_sessions = False\<rparr>"

definition demo_ort :: "unit ort" where
  "demo_ort = \<lparr>QWEN_MEL_BINS = 2, QWEN_TOKEN_ASR_TEXT = 0,
     qwen_mel_spectrogram = (\<lambda>samples n. Some ([0x3F800000, 0x40000000], 1)),
     create_session_with_fallback = (\<lambda>s. True),
     ort_ok = (\<lambda>s. True),
     heap_garbage = (\<lambda>i. 0),
     run_encoder = (\<lambda>mel frames. Some ([0x3F800000, 0, 0, 0x3F800000], 2)),
     SessionGetOutputCount = 5,
     run_prefill = (\<lambda>embeds n. Some ([0, 0x3F800000, 0], ())),
     run_decode = (\<lambda>buf pos kv. if pos < 19 then Some ([0, 0x3F800000, 0x3F800000], ()) else None)\<rparr>"

text \<open>
  The same configuration with a vocabulary large enough for the EOS ids and a prefill
  graph whose first token is 151645.
\<close>

definition demo_eos_ctx :: qwen_onnx_ctx where
  "demo_eos_ctx = demo_ctx\<lparr>vocab_size := 151646\<rparr>"

definition demo_eos_ort :: "unit ort" where
  "demo_eos_ort = demo_ort\<lparr>run_prefill := (\<lambda>embeds n. Some (replicate 151645 0 @ [0x3F800000], ()))\<rparr>"


section \<open>Properties of the half-precision codec\<close>

lemma hex_masks:
  "(0x1F :: 'a::len word) = mask 5" "(0x3FF :: 'a::len word) = mask 10"
  "(0xFF :: 'a::len word) = mask 8" "(0x7FFFFF :: 'a::len word) = mask 23"
  "(0x7FFF :: 'a::len word) = mask 15"
  by (simp_all add: mask_eq_exp_minus_1)

lemma unat_and_mask_lt: "unat ((w :: 'a::len word) AND mask n) < 2 ^ n"
proof -
  have "unat (w AND mask n) = take_bit n (unat w)"
    by (simp only: unsigned_take_bit_eq flip: take_bit_eq_mask)
  then show ?thesis by (simp add: take_bit_eq_mod)
qed

lemma f32_exp_lt: "f32_exp f < 256"
  using unat_and_mask_lt [of "drop_bit 23 f" 8] by (simp add: f32_exp_def hex_masks)

lemma fp16_exp_lt: "fp16_exp h < 32"
  using unat_and_mask_lt [of "drop_bit 10 h" 5] by (simp add: fp16_exp_def hex_masks)

lemma fp16_mant_lt: "fp16_mant h < 1024"
  using unat_and_mask_lt [of h 10] by (simp add: fp16_mant_def hex_masks)

lemma f32_mant_lt: "f32_mant h < 2 ^ 23"
  using unat_and_mask_lt [of h 23] by (simp add: f32_mant_def hex_masks)

lemma sint_exp_val:
  "sint ((drop_bit 23 bits AND 0xFF) - 127 + 15 :: u32) = int (f32_exp bits) - 112"
proof -
  define x :: u32 where "x = drop_bit 23 bits AND 0xFF"
  have "unat x < 256"
    using f32_exp_lt [of bits] by (simp add: x_def f32_exp_def)
  then have lt: "uint x < 256" by (simp flip: nat_uint_eq)
  have "x - 127 + 15 = word_of_int (uint x - 112)"
    by simp
  then have "sint (x - 127 + 15) = signed_take_bit 31 (uint x - 112)"
    by (simp only: signed_of_int) simp
  also have "\<dots> = uint x - 112"
    using lt by (intro signed_take_bit_int_eq_self) simp_all
  finally show ?thesis
    by (simp add: x_def f32_exp_def)
qed

lemma unat_exp_val:
  assumes "112 \<le> f32_exp bits"
  shows "unat ((drop_bit 23 bits AND 0xFF) - 127 + 15 :: u32) = f32_exp bits - 112"
proof -
  define x :: u32 where "x = drop_bit 23 bits AND 0xFF"
  have x: "unat x = f32_exp bits" by (simp add: x_def f32_exp_def)
  have "x - 127 + 15 = x - 112" by simp
  moreover have "unat (x - 112) = unat x - unat (112 :: u32)"
    using assms x by (intro unat_sub) (simp add: word_le_nat_alt)
  ultimately show ?thesis using x by (simp add: x_def)
qed

lemma bit_pow_const: "(c :: int) = 2 ^ k \<Longrightarrow> bit c n \<longleftrightarrow> n = k"
  by (auto simp only: bit_exp_iff possible_bit_int)

lemma bit_pmask_const:
  "(c :: int) = push_bit j (mask k) \<Longrightarrow> bit c n \<longleftrightarrow> j \<le> n \<and> n < j + k"
  by (auto simp add: bit_simps)

lemma bit_consts [simp]:
  "bit (0x400 :: int) n \<longleftrightarrow> n = 10"
  "bit (0x8000 :: int) n \<longleftrightarrow> n = 15"
  "bit (0x80000000 :: int) n \<longleftrightarrow> n = 31"
  using bit_pow_const [of "0x400" 10 n] bit_pow_const [of "0x8000" 15 n]
    bit_pow_const [of "0x80000000" 31 n]
  by auto

lemma bit_masks [simp]:
  "bit (0x1F :: int) n \<longleftrightarrow> n < 5"
  "bit (0x3FF :: int) n \<longleftrightarrow> n < 10"
  "bit (0xFF :: int) n \<longleftrightarrow> n < 8"
  "bit (0x7FFFFF :: int) n \<longleftrightarrow> n < 23"
  "bit (0x7FFF :: int) n \<longleftrightarrow> n < 15"
  using bit_pmask_const [of "0x1F" 0 5 n] bit_pmask_const [of "0x3FF" 0 10 n]
    bit_pmask_const [of "0xFF" 0 8 n] bit_pmask_const [of "0x7FFFFF" 0 23 n]
    bit_pmask_const [of "0x7FFF" 0 15 n]
  by (auto simp add: mask_eq_exp_minus_1)

lemma bit_pmasks [simp]:
  "bit (0x7C00 :: int) n \<longleftrightarrow> 10 \<le> n \<and> n < 15"
  "bit (0xFC00 :: int) n \<longleftrightarrow> 10 \<le> n \<and> n < 16"
  "bit (0x7F800000 :: int) n \<longleftrightarrow> 23 \<le> n \<and> n < 31"
  using bit_pmask_const [of "0x7C00" 10 5 n] 
    bit_pmask_const [of "0xFC00" 10 6 n] bit_pmask_const [of "0x7F800000" 23 8 n]
  by (auto simp add: mask_eq_exp_minus_1)

lemma last16: "n < 16 \<Longrightarrow> \<not> n < 15 \<Longrightarrow> n = (15::nat)"
  by simp

lemma convert_sign_only:
  "ucast (drop_bit 16 (bits :: u32) AND 0x8000) = (if f32_sign bits then 0x8000 else (0 :: u16))"
  unfolding f32_sign_def
  by (rule bit_eqI) (auto simp add: bit_simps dest: last16)

lemma convert_inf:
  "ucast (drop_bit 16 (bits :: u32) AND 0x8000 OR 0x7C00) = (if f32_sign bits then 0xFC00 else (0x7C00 :: u16))"
  unfolding f32_sign_def
  by (rule bit_eqI) (auto simp add: bit_simps dest: last16)

lemma fp16_pack_fields: "fp16_pack (fp16_sign h) (fp16_exp h) (fp16_mant h) = h"
  unfolding fp16_pack_def fp16_sign_def fp16_exp_def fp16_mant_def
  by (rule bit_eqI) (auto simp add: bit_simps dest: last16)


lemma take_bit_unat_self: "unat (w :: 'a::len word) < 2 ^ n \<Longrightarrow> take_bit n w = w"
  by (metis take_bit_nat_eq_self unsigned_take_bit_eq word_unat_eq_iff)

lemma mid_sign:
  "fp16_sign (ucast (drop_bit 16 (bits :: u32) AND 0x8000 OR push_bit 10 (take_bit 5 ev) OR (drop_bit 13 bits AND 0x3FF)))
    = f32_sign bits"
  unfolding fp16_sign_def f32_sign_def
  by (auto simp add: bit_simps)

lemma mid_exp:
  "drop_bit 10 (ucast (drop_bit 16 (bits :: u32) AND 0x8000 OR push_bit 10 (take_bit 5 ev) OR (drop_bit 13 bits AND 0x3FF)) :: u16) AND 0x1F
    = ucast (take_bit 5 ev)"
  by (rule bit_eqI) (auto simp add: bit_simps)

lemma mid_mant:
  "(ucast (drop_bit 16 (bits :: u32) AND 0x8000 OR push_bit 10 (take_bit 5 ev) OR (drop_bit 13 bits AND 0x3FF)) :: u16) AND 0x3FF
    = ucast (drop_bit 13 (bits AND 0x7FFFFF))"
  by (rule bit_eqI) (auto simp add: bit_simps)

lemma unat_ucast_small: "unat (w :: u32) < 2 ^ 16 \<Longrightarrow> unat (ucast w :: u16) = unat w"
  by (simp add: unsigned_ucast_eq take_bit_nat_eq_self)


lemma f32_pack_sign:
  "f32_sign (push_bit 31 (ucast (drop_bit 15 (h :: u16))) OR push_bit 23 (take_bit 8 x) OR push_bit 13 (take_bit 10 y))
     = fp16_sign h"
  unfolding fp16_sign_def f32_sign_def
  by (auto simp add: bit_simps)

lemma f32_pack_exp_word:
  "drop_bit 23 (push_bit 31 (ucast (drop_bit 15 (h :: u16))) OR push_bit 23 (take_bit 8 x) OR push_bit 13 (take_bit 10 y)) AND 0xFF
     = take_bit 8 (x :: u32)"
  by (rule bit_eqI) (auto simp add: bit_simps)

lemma f32_pack_mant_word:
  "(push_bit 31 (ucast (drop_bit 15 (h :: u16))) OR push_bit 23 (take_bit 8 x) OR push_bit 13 (take_bit 10 y)) AND 0x7FFFFF
     = push_bit 13 (take_bit 10 (y :: u32))"
  by (rule bit_eqI) (auto simp add: bit_simps)

lemma unat_push13: "unat (push_bit 13 (take_bit 10 (y :: u32))) = 2 ^ 13 * unat (take_bit 10 y)"
proof -
  have "unat (take_bit 10 y) = take_bit 10 (unat y)"
    by (simp only: unsigned_take_bit_eq)
  then have lt: "unat (take_bit 10 y) < 2 ^ 10"
    by (simp add: take_bit_eq_mod)
  have "unat (push_bit 13 (take_bit 10 y)) = take_bit 32 (push_bit 13 (unat (take_bit 10 y)))"
    by (simp add: unsigned_push_bit_eq)
  also have "\<dots> = push_bit 13 (unat (take_bit 10 y))"
    using lt by (intro take_bit_nat_eq_self) (simp add: push_bit_eq_mult)
  finally show ?thesis
    by (simp add: push_bit_eq_mult)
qed

lemma and_0x400: "(mant :: u32) AND 0x400 = 0 \<longleftrightarrow> \<not> bit mant 10"
proof -
  have "(0x400 :: u32) = 2 ^ 10" by simp
  then show ?thesis by (simp only: and_exp_eq_0_iff_not_bit)
qed

lemma bit10_unat: "bit (mant :: u32) 10 \<longleftrightarrow> odd (unat mant div 2 ^ 10)"
proof -
  have "bit mant 10 \<longleftrightarrow> bit (unat mant) 10"
    by (simp add: bit_unsigned_iff)
  then show ?thesis by (simp only: bit_iff_odd)
qed

lemma unat_double: "unat (mant :: u32) < 2 ^ 11 \<Longrightarrow> unat (push_bit 1 mant) = 2 * unat mant"
proof -
  assume lt: "unat mant < 2 ^ 11"
  have "unat (push_bit 1 mant) = take_bit 32 (push_bit 1 (unat mant))"
    by (simp only: unsigned_push_bit_eq) simp
  also have "\<dots> = push_bit 1 (unat mant)"
    using lt by (intro take_bit_nat_eq_self) (simp add: push_bit_eq_mult)
  finally show ?thesis by (simp add: push_bit_eq_mult)
qed

lemma fp16_norm_shift:
  "s \<le> 10 \<Longrightarrow> 2 ^ (10 - s) \<le> unat mant \<Longrightarrow> unat mant < 2 ^ (11 - s) \<Longrightarrow>
     fp16_norm mant ex = Some (push_bit s mant, ex - of_nat s)"
proof (induction s arbitrary: mant ex)
  case 0
  then have "unat mant div 2 ^ 10 = 1" by simp
  then have "bit mant 10" by (simp only: bit10_unat) simp
  then show ?case
    by (subst fp16_norm.simps) (simp add: and_0x400)
next
  case (Suc s)
  have p: "(2::nat) ^ (10 - s) = 2 * 2 ^ (10 - Suc s)" "(2::nat) ^ (11 - s) = 2 * 2 ^ (11 - Suc s)"
    using Suc.prems(1) by (simp_all flip: power_Suc add: Suc_diff_Suc)
  have "(2::nat) ^ (11 - Suc s) \<le> 2 ^ 10"
    by (intro power_increasing) simp_all
  with Suc.prems have small: "unat mant < 2 ^ 10" by simp
  then have "unat mant div 2 ^ 10 = 0" by simp
  then have nb: "\<not> bit mant 10" by (simp only: bit10_unat) simp
  from small have d: "unat (push_bit 1 mant) = 2 * unat mant"
    by (intro unat_double) simp
  then have d': "unat (mant * 2) = 2 * unat mant" by simp
  have "fp16_norm (push_bit 1 mant) (ex - 1) = Some (push_bit s (push_bit 1 mant), ex - 1 - of_nat s)"
    using Suc.prems by (intro Suc.IH) (simp_all add: d' p)
  then show ?case
    using nb by (subst fp16_norm.simps) (simp add: and_0x400 push_bit_push_bit)
qed

lemma top_bit_cases:
  assumes "1 \<le> m" "m < (1024::nat)"
  shows "\<exists>s. 1 \<le> s \<and> s \<le> 10 \<and> 2 ^ (10 - s) \<le> m \<and> m < 2 ^ (11 - s)"
proof -
  consider "m < 2" | "2 \<le> m \<and> m < 4" | "4 \<le> m \<and> m < 8" | "8 \<le> m \<and> m < 16"
    | "16 \<le> m \<and> m < 32" | "32 \<le> m \<and> m < 64" | "64 \<le> m \<and> m < 128"
    | "128 \<le> m \<and> m < 256" | "256 \<le> m \<and> m < 512" | "512 \<le> m"
    by linarith
  then show ?thesis
  proof cases
    case 1 then show ?thesis using assms by (intro exI [of _ 10]) simp
  next
    case 2 then show ?thesis by (intro exI [of _ 9]) simp
  next
    case 3 then show ?thesis by (intro exI [of _ 8]) simp
  next
    case 4 then show ?thesis by (intro exI [of _ 7]) simp
  next
    case 5 then show ?thesis by (intro exI [of _ 6]) simp
  next
    case 6 then show ?thesis by (intro exI [of _ 5]) simp
  next
    case 7 then show ?thesis by (intro exI [of _ 4]) simp
  next
    case 8 then show ?thesis by (intro exI [of _ 3]) simp
  next
    case 9 then show ?thesis by (intro exI [of _ 2]) simp
  next
    case 10 then show ?thesis using assms by (intro exI [of _ 1]) simp
  qed
qed

lemma fp16_exp_word: "unat (ucast (drop_bit 10 h AND 0x1F) :: u32) = fp16_exp h"
  using fp16_exp_lt [of h]
  by (simp add: unsigned_ucast_eq take_bit_nat_eq_self fp16_exp_def)

lemma fp16_mant_word: "unat (ucast (h AND 0x3FF) :: u32) = fp16_mant h"
  using fp16_mant_lt [of h]
  by (simp add: unsigned_ucast_eq take_bit_nat_eq_self fp16_mant_def)

lemma fp16_exp_word_eq:
  "(ucast (drop_bit 10 (h :: u16) AND 0x1F) :: u32) = 0 \<longleftrightarrow> fp16_exp h = 0"
  "(ucast (drop_bit 10 h AND 0x1F) :: u32) = 31 \<longleftrightarrow> fp16_exp h = 31"
  using fp16_exp_word [of h] by (simp_all add: word_unat_eq_iff)

lemma fp16_mant_word_eq:
  "(ucast (h AND 0x3FF) :: u32) = 0 \<longleftrightarrow> fp16_mant h = 0"
  using fp16_mant_word [of h] by (simp_all add: word_unat_eq_iff)

lemma fp16_mant_take: "take_bit 10 (ucast ((h :: u16) AND 0x3FF) :: u32) = ucast (h AND 0x3FF)"
  using fp16_mant_lt [of h] by (intro take_bit_unat_self) (simp add: fp16_mant_word)

lemma f32_fields_pack:
  fixes h :: u16 and x y :: u32
  defines "f \<equiv> push_bit 31 (ucast (drop_bit 15 h)) OR push_bit 23 (take_bit 8 x) OR push_bit 13 (take_bit 10 y)"
  shows "f32_sign f = fp16_sign h" "f32_exp f = unat (take_bit 8 x)" "f32_mant f = 2 ^ 13 * unat (take_bit 10 y)"
  unfolding f_def
  by (simp_all only: f32_pack_sign f32_exp_def f32_mant_def f32_pack_exp_word f32_pack_mant_word unat_push13)

lemma fp16_to_f32_zero:
  assumes "fp16_exp h = 0" "fp16_mant h = 0"
  shows "\<exists>f. fp16_to_f32 h = Some f \<and> f32_sign f = fp16_sign h \<and> f32_exp f = 0 \<and> f32_mant f = 0"
proof -
  define f :: u32 where
    "f = push_bit 31 (ucast (drop_bit 15 h)) OR push_bit 23 (take_bit 8 0) OR push_bit 13 (take_bit 10 0)"
  have 1: "fp16_to_f32 h = Some f"
    using assms by (simp add: f_def fp16_to_f32_def Let_def fp16_exp_word_eq fp16_mant_word_eq)
  have 2: "f32_sign f = fp16_sign h" "f32_exp f = unat (take_bit 8 (0 :: u32))"
      "f32_mant f = 2 ^ 13 * unat (take_bit 10 (0 :: u32))"
    unfolding f_def by (rule f32_fields_pack)+
  show ?thesis using 1 2 by simp
qed

lemma fp16_to_f32_top:
  assumes "fp16_exp h = 31"
  shows "\<exists>f. fp16_to_f32 h = Some f \<and> f32_sign f = fp16_sign h \<and> f32_exp f = 255 \<and> f32_mant f = 2 ^ 13 * fp16_mant h"
proof -
  define m :: u32 where "m = ucast (h AND 0x3FF)"
  define f :: u32 where
    "f = push_bit 31 (ucast (drop_bit 15 h)) OR push_bit 23 (take_bit 8 0xFF) OR push_bit 13 (take_bit 10 m)"
  have m: "take_bit 10 m = m" "unat m = fp16_mant h"
    by (simp_all only: m_def fp16_mant_take fp16_mant_word)
  have 1: "fp16_to_f32 h = Some f"
    using assms unfolding f_def m 
    by (simp add: fp16_to_f32_def Let_def fp16_exp_word_eq flip: m_def)
  have 2: "f32_sign f = fp16_sign h" "f32_exp f = unat (take_bit 8 (0xFF :: u32))"
      "f32_mant f = 2 ^ 13 * unat (take_bit 10 m)"
    unfolding f_def by (rule f32_fields_pack)+
  show ?thesis using 1 2 unfolding m by simp
qed

lemma fp16_to_f32_normal:
  assumes "0 < fp16_exp h" "fp16_exp h < 31"
  shows "\<exists>f. fp16_to_f32 h = Some f \<and> f32_sign f = fp16_sign h \<and> f32_exp f = fp16_exp h + 112
     \<and> f32_mant f = 2 ^ 13 * fp16_mant h"
proof -
  define ex :: u32 where "ex = ucast (drop_bit 10 h AND 0x1F)"
  define m :: u32 where "m = ucast (h AND 0x3FF)"
  define x :: u32 where "x = ex + 127 - 15"
  define f :: u32 where
    "f = push_bit 31 (ucast (drop_bit 15 h)) OR push_bit 23 (take_bit 8 x) OR push_bit 13 (take_bit 10 m)"
  have m: "take_bit 10 m = m" "unat m = fp16_mant h"
    by (simp_all only: m_def fp16_mant_take fp16_mant_word)
  have ex: "unat ex = fp16_exp h" by (simp only: ex_def fp16_exp_word)
  have x112: "x = ex + 112" by (simp add: x_def)
  have "unat (ex + 112) = unat ex + unat (112 :: u32)"
    using assms ex by (intro unat_add_lem [THEN iffD1]) simp
  then have u: "unat x = fp16_exp h + 112"
    using ex by (simp only: x112) simp
  then have t: "take_bit 8 x = x"
    using assms by (intro take_bit_unat_self) simp
  have ne: "ex \<noteq> 0" "ex \<noteq> 31"
    using assms by (simp_all add: ex_def fp16_exp_word_eq)
  have raw: "fp16_to_f32 h = Some (push_bit 31 (ucast (drop_bit 15 h)) OR push_bit 23 (ex + 127 - 15) OR push_bit 13 m)"
    using ne by (simp add: fp16_to_f32_def Let_def flip: ex_def m_def)
  have f_alt: "f = push_bit 31 (ucast (drop_bit 15 h)) OR push_bit 23 (ex + 127 - 15) OR push_bit 13 m"
    by (simp only: f_def t m) (simp only: x_def)
  have 1: "fp16_to_f32 h = Some f"
    by (simp only: raw f_alt)
  have 2: "f32_sign f = fp16_sign h" "f32_exp f = unat (take_bit 8 x)"
      "f32_mant f = 2 ^ 13 * unat (take_bit 10 m)"
    unfolding f_def by (rule f32_fields_pack)+
  show ?thesis using 1 2 unfolding m t u by simp
qed

lemma mod_1024_top:
  assumes "1024 \<le> n" "n < 2048"
  shows "1024 + n mod 1024 = (n::nat)"
proof -
  have "n mod 1024 = (n - 1024) mod 1024"
    using assms(1) by (rule le_mod_geq)
  also have "\<dots> = n - 1024"
    using assms(2) by simp
  finally show ?thesis
    using assms(1) by simp
qed

lemma fp16_to_f32_sub:
  assumes "fp16_exp h = 0" "fp16_mant h \<noteq> 0"
  shows "\<exists>f s. fp16_to_f32 h = Some f \<and> f32_sign f = fp16_sign h \<and> 1 \<le> s \<and> s \<le> 10
     \<and> f32_exp f = 113 - s \<and> 2 ^ 23 + f32_mant f = 2 ^ 13 * (fp16_mant h * 2 ^ s)"
proof -
  define m :: u32 where "m = ucast (h AND 0x3FF)"
  have m: "unat m = fp16_mant h" by (simp only: m_def fp16_mant_word)
  have "1 \<le> unat m" "unat m < 1024"
    using assms fp16_mant_lt [of h] by (simp_all add: m)
  then obtain s where s: "1 \<le> s" "s \<le> 10" "2 ^ (10 - s) \<le> unat m" "unat m < 2 ^ (11 - s)"
    using top_bit_cases by blast
  define y :: u32 where "y = push_bit s m"
  define x :: u32 where "x = 1 - of_nat s + 127 - 15"
  define f :: u32 where
    "f = push_bit 31 (ucast (drop_bit 15 h)) OR push_bit 23 (take_bit 8 x) OR push_bit 13 (take_bit 10 y)"
  have norm: "fp16_norm m 1 = Some (y, 1 - of_nat s)"
    unfolding y_def using s by (intro fp16_norm_shift)
  have "x = of_nat (113 - s)"
    using s by (simp add: x_def of_nat_diff)
  then have u: "unat x = 113 - s"
    by (simp add: unat_of_nat)
  then have t: "take_bit 8 x = x"
    by (intro take_bit_unat_self) simp
  have pw: "(2::nat) ^ (11 - s) * 2 ^ s = 2 ^ 11" "(2::nat) ^ (10 - s) * 2 ^ s = 2 ^ 10"
    using s by (simp_all flip: power_add)
  have lo: "2 ^ 10 \<le> unat m * 2 ^ s"
    using s(3) pw(2) by (metis mult_le_mono1)
  have hi: "unat m * 2 ^ s < 2 ^ 11"
    using s(4) pw(1) by (metis mult_less_mono1 zero_less_numeral zero_less_power)
  have "unat y = take_bit 32 (push_bit s (unat m))"
    unfolding y_def by (simp only: unsigned_push_bit_eq) simp
  also have "\<dots> = push_bit s (unat m)"
    using hi by (intro take_bit_nat_eq_self) (simp add: push_bit_eq_mult)
  finally have uy: "unat y = unat m * 2 ^ s"
    by (simp add: push_bit_eq_mult)
  have "unat (take_bit 10 y) = take_bit 10 (unat y)"
    by (simp only: unsigned_take_bit_eq)
  then have "unat (take_bit 10 y) = unat y mod 2 ^ 10"
    by (simp only: take_bit_eq_mod)
  then have ty: "2 ^ 10 + unat (take_bit 10 y) = unat y"
    using lo hi mod_1024_top [of "unat y"] by (simp add: uy)
  have mne: "m \<noteq> 0"
    using assms by (simp add: m_def fp16_mant_word_eq)
  have ez: "(ucast (drop_bit 10 h AND 0x1F) :: u32) = 0"
    using assms by (simp only: fp16_exp_word_eq)
  have raw: "fp16_to_f32 h = Some (push_bit 31 (ucast (drop_bit 15 h)) OR push_bit 23 (1 - of_nat s + 127 - 15) OR push_bit 13 (y AND 0x3FF))"
    using ez mne norm
    by (simp add: fp16_to_f32_def Let_def flip: m_def)
  have f_alt: "f = push_bit 31 (ucast (drop_bit 15 h)) OR push_bit 23 (1 - of_nat s + 127 - 15) OR push_bit 13 (y AND 0x3FF)"
    by (simp only: f_def t) (simp only: take_bit_eq_mask hex_masks x_def)
  have 1: "fp16_to_f32 h = Some f"
    by (simp only: raw f_alt)
  have 2: "f32_sign f = fp16_sign h" "f32_exp f = unat (take_bit 8 x)"
      "f32_mant f = 2 ^ 13 * unat (take_bit 10 y)"
    unfolding f_def by (rule f32_fields_pack)+
  have "2 ^ 23 + f32_mant f = 2 ^ 13 * (2 ^ 10 + unat (take_bit 10 y))"
    by (simp add: 2)
  then have 3: "2 ^ 23 + f32_mant f = 2 ^ 13 * (fp16_mant h * 2 ^ s)"
    by (simp only: ty uy m)
  have "fp16_to_f32 h = Some f \<and> f32_sign f = fp16_sign h \<and> 1 \<le> s \<and> s \<le> 10
     \<and> f32_exp f = 113 - s \<and> 2 ^ 23 + f32_mant f = 2 ^ 13 * (fp16_mant h * 2 ^ s)"
    using 1 2(1) s(1,2) 3 by (simp only: 2(2) t u) 
  then show ?thesis
    by (intro exI)
qed

lemma fp16_eq_fieldsI:
  "fp16_sign a = fp16_sign b \<Longrightarrow> fp16_exp a = fp16_exp b \<Longrightarrow> fp16_mant a = fp16_mant b \<Longrightarrow> a = b"
proof -
  assume eq: "fp16_sign a = fp16_sign b" "fp16_exp a = fp16_exp b" "fp16_mant a = fp16_mant b"
  have "a = fp16_pack (fp16_sign a) (fp16_exp a) (fp16_mant a)"
    by (simp only: fp16_pack_fields)
  also have "\<dots> = fp16_pack (fp16_sign b) (fp16_exp b) (fp16_mant b)"
    by (simp only: eq)
  also have "\<dots> = b"
    by (rule fp16_pack_fields)
  finally show ?thesis .
qed

lemma sint_exp_val':
  "sint ((drop_bit 23 bits AND 0xFF) - 112 :: u32) = int (f32_exp bits) - 112"
  using sint_exp_val [of bits] by simp

lemma unat_exp_val':
  "112 \<le> f32_exp bits \<Longrightarrow> unat ((drop_bit 23 bits AND 0xFF) - 112 :: u32) = f32_exp bits - 112"
  using unat_exp_val [of bits] by simp

lemma convert_low:
  assumes "int (f32_exp b) - 112 \<le> 0"
  shows "load_npy_fp16_convert b = (if f32_sign b then 0x8000 else 0)"
  using assms by (simp add: load_npy_fp16_convert_def Let_def sint_exp_val' convert_sign_only)

lemma convert_high:
  assumes "31 \<le> int (f32_exp b) - 112"
  shows "load_npy_fp16_convert b = (if f32_sign b then 0xFC00 else 0x7C00)"
  using assms by (simp add: load_npy_fp16_convert_def Let_def sint_exp_val' convert_inf)

lemma convert_mid:
  assumes "0 < int (f32_exp b) - 112" "int (f32_exp b) - 112 < 31"
  shows "fp16_sign (load_npy_fp16_convert b) = f32_sign b"
    and "fp16_exp (load_npy_fp16_convert b) = f32_exp b - 112"
    and "fp16_mant (load_npy_fp16_convert b) = f32_mant b div 2 ^ 13"
proof -
  define ev :: u32 where "ev = (drop_bit 23 b AND 0xFF) - 112"
  define r :: u16 where
    "r = ucast (drop_bit 16 b AND 0x8000 OR push_bit 10 (take_bit 5 ev) OR (drop_bit 13 b AND 0x3FF))"
  have u: "unat ev = f32_exp b - 112"
    unfolding ev_def using assms by (intro unat_exp_val') simp
  then have t: "take_bit 5 ev = ev"
    using assms by (intro take_bit_unat_self) simp
  have "load_npy_fp16_convert b = ucast (drop_bit 16 b AND 0x8000 OR push_bit 10 ev OR (drop_bit 13 b AND 0x3FF))"
    using assms unfolding ev_def
    by (simp add: load_npy_fp16_convert_def Let_def sint_exp_val')
  then have r: "load_npy_fp16_convert b = r"
    by (simp only: r_def t)
  show "fp16_sign (load_npy_fp16_convert b) = f32_sign b"
    unfolding r r_def by (rule mid_sign)
  have "drop_bit 10 r AND 0x1F = ucast (take_bit 5 ev)"
    unfolding r_def by (rule mid_exp)
  then have "fp16_exp r = unat (ucast ev :: u16)"
    by (simp only: fp16_exp_def t)
  also have "\<dots> = unat ev"
    using u assms by (intro unat_ucast_small) simp
  finally show "fp16_exp (load_npy_fp16_convert b) = f32_exp b - 112"
    by (simp only: r u)
  have "unat (drop_bit 13 (b AND 0x7FFFFF)) = f32_mant b div 2 ^ 13"
    by (simp only: unat_drop_bit_eq f32_mant_def) (simp only: drop_bit_eq_div)
  moreover have "unat (ucast (drop_bit 13 (b AND 0x7FFFFF)) :: u16) = unat (drop_bit 13 (b AND 0x7FFFFF))"
    using f32_mant_lt [of b] calculation
    by (intro unat_ucast_small) (simp add: div_less_iff_less_mult)
  moreover have "r AND 0x3FF = ucast (drop_bit 13 (b AND 0x7FFFFF))"
    unfolding r_def by (rule mid_mant)
  ultimately show "fp16_mant (load_npy_fp16_convert b) = f32_mant b div 2 ^ 13"
    by (simp only: r fp16_mant_def)
qed

lemma f32_value_normal_exact:
  assumes "f32_sign f = fp16_sign h" "f32_exp f = fp16_exp h + 112" "f32_mant f = 2 ^ 13 * fp16_mant h"
    "0 < fp16_exp h"
  shows "f32_value f = fp16_value h"
proof -
  have "(of_nat (2 ^ 23 + 2 ^ 13 * fp16_mant h) :: rat) = 2 ^ 13 * of_nat (1024 + fp16_mant h)"
    by simp
  then show ?thesis
    using assms by (simp add: f32_value_def fp16_value_def power_add)
qed

lemma f32_value_sub_exact:
  assumes "f32_sign f = fp16_sign h" "f32_exp f = 113 - s" "2 ^ 23 + f32_mant f = 2 ^ 13 * (fp16_mant h * 2 ^ s)"
    "fp16_exp h = 0" "1 \<le> s" "s \<le> 10"
  shows "f32_value f = fp16_value h"
proof -
  have "(of_nat (2 ^ 23 + f32_mant f) :: rat) = of_nat (2 ^ 13 * (fp16_mant h * 2 ^ s))"
    by (simp only: assms(3))
  then have a: "(of_nat (2 ^ 23 + f32_mant f) :: rat) = 2 ^ 13 * of_nat (fp16_mant h) * 2 ^ s"
    by simp
  have "(2 :: rat) ^ s * 2 ^ (113 - s) = 2 ^ 113"
    using assms(6) by (simp flip: power_add)
  then have "(of_nat (2 ^ 23 + f32_mant f) :: rat) * 2 ^ (113 - s) = 2 ^ 126 * of_nat (fp16_mant h)"
    unfolding a by (simp add: mult.assoc mult.left_commute)
  then show ?thesis
    using assms(1,2,4,6) by (simp add: f32_value_def fp16_value_def)
qed

lemma fp16_to_f32_returns: "fp16_to_f32 h \<noteq> None"
proof -
  consider (zero) "fp16_exp h = 0" "fp16_mant h = 0"
    | (sub) "fp16_exp h = 0" "fp16_mant h \<noteq> 0"
    | (top) "fp16_exp h = 31"
    | (normal) "0 < fp16_exp h" "fp16_exp h < 31"
    using fp16_exp_lt [of h] by linarith
  then show ?thesis
  proof cases
    case zero
    from fp16_to_f32_zero [OF zero] show ?thesis by auto
  next
    case sub
    from fp16_to_f32_sub [OF sub] show ?thesis by auto
  next
    case top
    from fp16_to_f32_top [OF top] show ?thesis by auto
  next
    case normal
    from fp16_to_f32_normal [OF normal] show ?thesis by auto
  qed
qed

text \<open>
  Claim C6. For every 16-bit input the conversion \<open>fp16_to_f32\<close> returns, keeps the
  sign, and is exact: a signed zero gives the signed zero, a subnormal input gives the
  normal binary32 number of the same value, exponent field 31 gives the infinity or a NaN
  of the same sign, and a normal input gives the exponent rebiased by \<open>127 - 15 = 112\<close>
  with the ten mantissa bits moved to the top of the fraction; in every finite case the
  rational values of input and output are equal.
\<close>

theorem fp16_to_f32_ieee_exact:
  "\<exists>f. fp16_to_f32 h = Some f \<and> f32_sign f = fp16_sign h \<and>
     (case fp16_class h of
        FZero \<Rightarrow> f32_class f = FZero \<and> f32_value f = fp16_value h
      | FSubnormal \<Rightarrow> f32_class f = FNormal \<and> f32_value f = fp16_value h
      | FNormal \<Rightarrow> f32_class f = FNormal \<and> f32_exp f = fp16_exp h + 112
          \<and> f32_mant f = 2 ^ 13 * fp16_mant h \<and> f32_value f = fp16_value h
      | FInfinity \<Rightarrow> f32_class f = FInfinity
      | FNaN \<Rightarrow> f32_class f = FNaN \<and> f32_mant f = 2 ^ 13 * fp16_mant h)"
proof -
  consider (zero) "fp16_exp h = 0" "fp16_mant h = 0"
    | (sub) "fp16_exp h = 0" "fp16_mant h \<noteq> 0"
    | (top) "fp16_exp h = 31"
    | (normal) "0 < fp16_exp h" "fp16_exp h < 31"
    using fp16_exp_lt [of h] by linarith
  then show ?thesis
  proof cases
    case zero
    from fp16_to_f32_zero [OF zero] obtain f where
      f: "fp16_to_f32 h = Some f" "f32_sign f = fp16_sign h" "f32_exp f = 0" "f32_mant f = 0"
      by blast
    then show ?thesis
      using zero by (simp add: fp16_class_def f32_class_def fp_classify_def f32_value_def fp16_value_def)
  next
    case sub
    from fp16_to_f32_sub [OF sub] obtain f s where
      f: "fp16_to_f32 h = Some f" "f32_sign f = fp16_sign h" "1 \<le> s" "s \<le> 10"
        "f32_exp f = 113 - s" "2 ^ 23 + f32_mant f = 2 ^ 13 * (fp16_mant h * 2 ^ s)"
      by blast
    have "f32_value f = fp16_value h"
      using f(2,5,6) sub(1) f(3,4) by (rule f32_value_sub_exact)
    moreover have "f32_exp f \<noteq> 0" "f32_exp f \<noteq> 255"
      using f(3,4,5) by simp_all
    ultimately show ?thesis
      using f(1,2) sub by (simp add: fp16_class_def f32_class_def fp_classify_def)
  next
    case top
    from fp16_to_f32_top [OF top] obtain f where
      f: "fp16_to_f32 h = Some f" "f32_sign f = fp16_sign h" "f32_exp f = 255"
        "f32_mant f = 2 ^ 13 * fp16_mant h"
      by blast
    then show ?thesis
      using top by (simp add: fp16_class_def f32_class_def fp_classify_def)
  next
    case normal
    from fp16_to_f32_normal [OF normal] obtain f where
      f: "fp16_to_f32 h = Some f" "f32_sign f = fp16_sign h" "f32_exp f = fp16_exp h + 112"
        "f32_mant f = 2 ^ 13 * fp16_mant h"
      by blast
    have "f32_value f = fp16_value h"
      using f(2,3,4) normal(1) by (rule f32_value_normal_exact)
    then show ?thesis
      using f normal by (simp add: fp16_class_def f32_class_def fp_classify_def)
  qed
qed

theorem fp16_to_f32_ieee_exact_witness:
  "fp16_class 0x3C00 = FNormal \<and> fp16_class 0x0001 = FSubnormal \<and> fp16_class 0xFC00 = FInfinity
     \<and> fp16_class 0x8000 = FZero \<and> fp16_class 0x7E00 = FNaN
     \<and> fp16_to_f32 0x3C00 = Some 0x3F800000 \<and> fp16_to_f32 0x0001 = Some 0x33800000
     \<and> fp16_to_f32 0xFC00 = Some 0xFF800000 \<and> fp16_to_f32 0x8000 = Some 0x80000000
     \<and> fp16_to_f32 0x7E00 = Some 0x7FC00000
     \<and> fp16_value 0x0001 = 1 / 2 ^ 24 \<and> f32_value 0x33800000 = 1 / 2 ^ 24"
  using fp16_to_f32_ieee_exact [of "0x3C00"] fp16_to_f32_ieee_exact [of "0x0001"]
    fp16_to_f32_ieee_exact [of "0xFC00"] fp16_to_f32_ieee_exact [of "0x8000"]
    fp16_to_f32_ieee_exact [of "0x7E00"]
  by (simp add: fp16_class_def fp_classify_def fp16_exp_def fp16_mant_def fp16_sign_def
      fp16_to_f32_def fp16_norm.simps fp16_value_def f32_value_def f32_exp_def f32_mant_def
      f32_sign_def)

text \<open>
  Claim C7. For every binary32 pattern given to the fallback conversion of
  \<open>load_npy_fp16\<close>, with \<open>E\<close> the rebiased exponent \<open>e - 127 + 15\<close>: if \<open>E \<le> 0\<close> the
  result is the zero with the input's sign, if \<open>E \<ge> 31\<close> it is the infinity with the
  input's sign, and otherwise it has the input's sign, exponent field \<open>E\<close> and the top
  ten bits of the fraction, the other thirteen being dropped without rounding.
\<close>

theorem load_npy_fp16_convert_truncates:
  "(int (f32_exp bits) - 127 + 15 \<le> 0 \<longrightarrow>
      load_npy_fp16_convert bits = (if f32_sign bits then 0x8000 else 0)) \<and>
   (31 \<le> int (f32_exp bits) - 127 + 15 \<longrightarrow>
      load_npy_fp16_convert bits = (if f32_sign bits then 0xFC00 else 0x7C00)) \<and>
   (0 < int (f32_exp bits) - 127 + 15 \<and> int (f32_exp bits) - 127 + 15 < 31 \<longrightarrow>
      fp16_sign (load_npy_fp16_convert bits) = f32_sign bits \<and>
      int (fp16_exp (load_npy_fp16_convert bits)) = int (f32_exp bits) - 127 + 15 \<and>
      fp16_mant (load_npy_fp16_convert bits) = f32_mant bits div 2 ^ 13)"
proof (intro conjI impI)
  assume "int (f32_exp bits) - 127 + 15 \<le> 0"
  then show "load_npy_fp16_convert bits = (if f32_sign bits then 0x8000 else 0)"
    by (intro convert_low) simp
next
  assume "31 \<le> int (f32_exp bits) - 127 + 15"
  then show "load_npy_fp16_convert bits = (if f32_sign bits then 0xFC00 else 0x7C00)"
    by (intro convert_high) simp
next
  assume "0 < int (f32_exp bits) - 127 + 15 \<and> int (f32_exp bits) - 127 + 15 < 31"
  then have r: "0 < int (f32_exp bits) - 112" "int (f32_exp bits) - 112 < 31"
    by simp_all
  show "fp16_sign (load_npy_fp16_convert bits) = f32_sign bits"
    using r by (rule convert_mid)
  show "int (fp16_exp (load_npy_fp16_convert bits)) = int (f32_exp bits) - 127 + 15"
    using r by (simp add: convert_mid(2))
  show "fp16_mant (load_npy_fp16_convert bits) = f32_mant bits div 2 ^ 13"
    using r by (rule convert_mid)
qed

theorem load_npy_fp16_convert_truncates_witness:
  "load_npy_fp16_convert 0xB3800001 = 0x8000 \<and> load_npy_fp16_convert 0x7F000000 = 0x7C00
    \<and> fp16_exp (load_npy_fp16_convert 0x3FFFFFFF) = 15
    \<and> fp16_mant (load_npy_fp16_convert 0x3FFFFFFF) = 0x3FF"
  using load_npy_fp16_convert_truncates [of "0xB3800001"]
    load_npy_fp16_convert_truncates [of "0x7F000000"]
    load_npy_fp16_convert_truncates [of "0x3FFFFFFF"]
  by (simp add: f32_exp_def f32_sign_def f32_mant_def)

lemma fp16_sign_mask: "(h :: u16) AND 0x8000 = (if fp16_sign h then 0x8000 else 0)"
  unfolding fp16_sign_def
  by (rule bit_eqI) (auto simp add: bit_simps)

lemma fp16_const_fields:
  "fp16_sign 0x8000" "fp16_exp 0x8000 = 0" "fp16_mant 0x8000 = 0"
  "\<not> fp16_sign 0" "fp16_exp 0 = 0" "fp16_mant 0 = 0"
  "fp16_sign 0xFC00" "fp16_exp 0xFC00 = 31" "fp16_mant 0xFC00 = 0"
  "\<not> fp16_sign 0x7C00" "fp16_exp 0x7C00 = 31" "fp16_mant 0x7C00 = 0"
  by (simp_all add: fp16_sign_def fp16_exp_def fp16_mant_def)

lemma fp16_roundtrip_zero:
  assumes "fp16_exp h = 0" "fp16_mant h = 0"
  shows "fp16_roundtrip h = Some h"
proof -
  from fp16_to_f32_zero [OF assms] obtain f where
    f: "fp16_to_f32 h = Some f" "f32_sign f = fp16_sign h" "f32_exp f = 0" "f32_mant f = 0"
    by blast
  have "load_npy_fp16_convert f = (if f32_sign f then 0x8000 else 0)"
    using f(3) by (intro convert_low) simp
  also have "\<dots> = h"
    using assms f(2) by (intro fp16_eq_fieldsI) (simp_all add: fp16_const_fields)
  finally show ?thesis
    using f(1) by (simp add: fp16_roundtrip_def)
qed

lemma fp16_roundtrip_sub:
  assumes "fp16_exp h = 0" "fp16_mant h \<noteq> 0"
  shows "fp16_roundtrip h = Some (h AND 0x8000)"
proof -
  from fp16_to_f32_sub [OF assms] obtain f s where
    f: "fp16_to_f32 h = Some f" "f32_sign f = fp16_sign h" "1 \<le> s" "s \<le> 10" "f32_exp f = 113 - s"
    by blast
  have "load_npy_fp16_convert f = (if f32_sign f then 0x8000 else 0)"
    using f(3,4,5) by (intro convert_low) simp
  also have "\<dots> = h AND 0x8000"
    by (simp only: f(2) fp16_sign_mask)
  finally show ?thesis
    using f(1) by (simp add: fp16_roundtrip_def)
qed

lemma fp16_roundtrip_inf:
  assumes "fp16_exp h = 31" "fp16_mant h = 0"
  shows "fp16_roundtrip h = Some h"
proof -
  from fp16_to_f32_top [OF assms(1)] obtain f where
    f: "fp16_to_f32 h = Some f" "f32_sign f = fp16_sign h" "f32_exp f = 255"
    by blast
  have "load_npy_fp16_convert f = (if f32_sign f then 0xFC00 else 0x7C00)"
    using f(3) by (intro convert_high) simp
  also have "\<dots> = h"
    using assms f(2) by (intro fp16_eq_fieldsI) (simp_all add: fp16_const_fields)
  finally show ?thesis
    using f(1) by (simp add: fp16_roundtrip_def)
qed

lemma fp16_roundtrip_normal:
  assumes "0 < fp16_exp h" "fp16_exp h < 31"
  shows "fp16_roundtrip h = Some h"
proof -
  from fp16_to_f32_normal [OF assms] obtain f where
    f: "fp16_to_f32 h = Some f" "f32_sign f = fp16_sign h" "f32_exp f = fp16_exp h + 112"
      "f32_mant f = 2 ^ 13 * fp16_mant h"
    by blast
  have r: "0 < int (f32_exp f) - 112" "int (f32_exp f) - 112 < 31"
    using assms f(3) by simp_all
  have "load_npy_fp16_convert f = h"
  proof (rule fp16_eq_fieldsI)
    show "fp16_sign (load_npy_fp16_convert f) = fp16_sign h"
      using convert_mid(1) [OF r] f(2) by simp
    show "fp16_exp (load_npy_fp16_convert f) = fp16_exp h"
      using convert_mid(2) [OF r] f(3) by simp
    show "fp16_mant (load_npy_fp16_convert f) = fp16_mant h"
      using convert_mid(3) [OF r] f(4) by simp
  qed
  then show ?thesis
    using f(1) by (simp add: fp16_roundtrip_def)
qed

text \<open>
  Claim C4 as stated fails on subnormal inputs. The largest binary16 subnormal
  \<open>0x03FF\<close> is not a NaN; converted to binary32 and back it becomes \<open>0x0000\<close>,
  which is neither the same pattern nor within one unit in the last place (it is 1023
  units away).
\<close>

theorem fp16_roundtrip_subnormal_counterexample:
  "fp16_class 0x03FF \<noteq> FNaN \<and> fp16_roundtrip 0x03FF = Some 0
     \<and> \<not> ((0 :: u16) = 0x03FF \<or> fp16_ulp_dist 0 0x03FF \<le> 1)"
  by (simp add: fp16_class_def fp_classify_def fp16_exp_def fp16_mant_def fp16_roundtrip_def
      fp16_to_f32_def fp16_norm.simps load_npy_fp16_convert_def fp16_ulp_dist_def fp16_ord_def
      fp16_sign_def)

text \<open>
  Claim C4, amended. For every 16-bit pattern outside the NaN band the round trip through
  \<open>fp16_to_f32\<close> and the truncating reverse conversion returns: the same bits when the
  pattern is a zero, a normal number or an infinity; the zero of the same sign when the
  pattern is subnormal.
\<close>

theorem fp16_roundtrip_exact_unless_subnormal:
  "fp16_class h \<noteq> FNaN \<Longrightarrow>
     fp16_roundtrip h = Some (if fp16_class h = FSubnormal then h AND 0x8000 else h)"
proof -
  assume nn: "fp16_class h \<noteq> FNaN"
  have top: "fp16_exp h = 31 \<longrightarrow> fp16_mant h = 0"
    using nn by (auto simp add: fp16_class_def fp_classify_def split: if_splits)
  consider (zero) "fp16_exp h = 0" "fp16_mant h = 0"
    | (sub) "fp16_exp h = 0" "fp16_mant h \<noteq> 0"
    | (inf) "fp16_exp h = 31" "fp16_mant h = 0"
    | (normal) "0 < fp16_exp h" "fp16_exp h < 31"
    using fp16_exp_lt [of h] top by atomize_elim auto
  then show ?thesis
  proof cases
    case zero
    then show ?thesis
      by (simp add: fp16_roundtrip_zero fp16_class_def fp_classify_def)
  next
    case sub
    then show ?thesis
      by (simp add: fp16_roundtrip_sub fp16_class_def fp_classify_def)
  next
    case inf
    then show ?thesis
      by (simp add: fp16_roundtrip_inf fp16_class_def fp_classify_def)
  next
    case normal
    then show ?thesis
      by (simp add: fp16_roundtrip_normal fp16_class_def fp_classify_def)
  qed
qed

theorem fp16_roundtrip_exact_unless_subnormal_witness:
  "fp16_class 0x3C00 \<noteq> FNaN \<and> fp16_roundtrip 0x3C00 = Some 0x3C00
     \<and> fp16_class 0x83FF \<noteq> FNaN \<and> fp16_roundtrip 0x83FF = Some 0x8000"
  using fp16_roundtrip_exact_unless_subnormal [of "0x3C00"]
    fp16_roundtrip_exact_unless_subnormal [of "0x83FF"]
  by (simp add: fp16_class_def fp_classify_def fp16_exp_def fp16_mant_def)

section \<open>The input guard\<close>

text \<open>
  Claim C9. Called with a null context, a null sample pointer or \<open>n_samples \<le> 0\<close> (in
  particular \<open>n_samples = 0\<close>), \<open>qwen_onnx_transcribe\<close> returns the no-result value at
  once: the context is the one it was given and no session event happened, so nothing
  was loaded.
\<close>

theorem transcribe_guard_returns_null:
  "ctx = None \<or> samples = None \<or> n_samples \<le> 0 \<Longrightarrow>
     qwen_onnx_transcribe w ctx samples n_samples = (NoResult, ctx, [])"
  by (auto simp add: qwen_onnx_transcribe_def split: option.splits)

theorem transcribe_guard_returns_null_witness:
  "qwen_onnx_transcribe demo_ort (Some demo_ctx) (Some []) 0 = (NoResult, Some demo_ctx, [])"
  using transcribe_guard_returns_null [of "Some demo_ctx" "Some []" 0 demo_ort] by simp

section \<open>The order of floats\<close>

text \<open>
  The sign-magnitude reading orders the patterns as their values: a larger pair of exponent
  and mantissa is a larger absolute value, across the subnormal and normal ranges.
\<close>

lemma f32_scaled_mono:
  assumes "m1 < 2 ^ 23" "m2 < 2 ^ 23" "e1 * 2 ^ 23 + m1 < e2 * 2 ^ 23 + m2"
  shows "f32_scaled e1 m1 < f32_scaled e2 m2"
proof (cases "e1 = e2")
  case True
  with assms(3) have "m1 < m2" by simp
  then show ?thesis
    using True by (simp add: f32_scaled_def)
next
  case False
  have "e1 < e2"
  proof (rule ccontr)
    assume "\<not> e1 < e2"
    with False have "e2 + 1 \<le> e1" by simp
    then have "(e2 + 1) * 2 ^ 23 \<le> e1 * (2 ^ 23 :: nat)"
      by (rule mult_le_mono1)
    with assms(2,3) show False by simp
  qed
  have up: "f32_scaled e1 m1 < 2 ^ 24 * 2 ^ e1"
    using assms(1) by (simp add: f32_scaled_def)
  have "e2 \<noteq> 0" using \<open>e1 < e2\<close> by simp
  then have "f32_scaled e2 m2 \<ge> 2 ^ 23 * 2 ^ e2"
    by (simp add: f32_scaled_def)
  moreover have "(2::nat) ^ 23 * 2 ^ e2 \<ge> 2 ^ 23 * 2 ^ (Suc e1)"
    using \<open>e1 < e2\<close> by (simp add: power_increasing del: power_Suc)
  ultimately have "f32_scaled e2 m2 \<ge> 2 ^ 24 * 2 ^ e1"
    by simp
  with up show ?thesis by simp
qed

lemma f32_scaled_less_iff:
  assumes "m1 < 2 ^ 23" "m2 < 2 ^ 23"
  shows "f32_scaled e1 m1 < f32_scaled e2 m2 \<longleftrightarrow> e1 * 2 ^ 23 + m1 < e2 * 2 ^ 23 + m2"
proof
  assume "e1 * 2 ^ 23 + m1 < e2 * 2 ^ 23 + m2"
  then show "f32_scaled e1 m1 < f32_scaled e2 m2"
    using assms by (intro f32_scaled_mono)
next
  assume l: "f32_scaled e1 m1 < f32_scaled e2 m2"
  show "e1 * 2 ^ 23 + m1 < e2 * 2 ^ 23 + m2"
  proof (rule ccontr)
    assume "\<not> e1 * 2 ^ 23 + m1 < e2 * 2 ^ 23 + m2"
    then consider "e2 * 2 ^ 23 + m2 < e1 * 2 ^ 23 + m1" | "e2 * 2 ^ 23 + m2 = e1 * 2 ^ 23 + m1"
      by linarith
    then show False
    proof cases
      case 1
      then have "f32_scaled e2 m2 < f32_scaled e1 m1"
        using assms by (intro f32_scaled_mono)
      with l show False by simp
    next
      case 2
      have "e1 = e2 \<and> m1 = m2"
      proof -
        have "(e2 * 2 ^ 23 + m2) div 2 ^ 23 = e2" "(e1 * 2 ^ 23 + m1) div 2 ^ 23 = e1"
          using assms by simp_all
        with 2 have "e1 = e2" by simp
        with 2 show ?thesis by simp
      qed
      with l show False by simp
    qed
  qed
qed

lemma f32_value_scaled:
  "f32_value f = (if f32_sign f then - 1 else 1) * of_nat (f32_scaled (f32_exp f) (f32_mant f)) / 2 ^ 150"
  by (simp add: f32_value_def f32_scaled_def)

lemma f32_ord_value:
  "f32_ord a < f32_ord b \<longleftrightarrow> f32_value a < f32_value b"
proof -
  let ?sa = "f32_scaled (f32_exp a) (f32_mant a)" and ?sb = "f32_scaled (f32_exp b) (f32_mant b)"
  have lt: "?sa < ?sb \<longleftrightarrow> f32_mag a < f32_mag b" "?sb < ?sa \<longleftrightarrow> f32_mag b < f32_mag a"
    using f32_mant_lt [of a] f32_mant_lt [of b] by (simp_all add: f32_scaled_less_iff f32_mag_def)
  have z: "?sa = 0 \<longleftrightarrow> f32_mag a = 0" "?sb = 0 \<longleftrightarrow> f32_mag b = 0"
    by (auto simp add: f32_scaled_def f32_mag_def)
  define ia where "ia = (if f32_sign a then - int ?sa else int ?sa)"
  define ib where "ib = (if f32_sign b then - int ?sb else int ?sb)"
  have "f32_value a = rat_of_int ia / 2 ^ 150" "f32_value b = rat_of_int ib / 2 ^ 150"
    by (simp_all add: f32_value_scaled ia_def ib_def)
  then have "f32_value a < f32_value b \<longleftrightarrow> rat_of_int ia / 2 ^ 150 < rat_of_int ib / 2 ^ 150"
    by (simp only:)
  also have "\<dots> \<longleftrightarrow> rat_of_int ia < rat_of_int ib"
    by (rule divide_less_cancel [THEN trans]) simp
  also have "\<dots> \<longleftrightarrow> ia < ib"
    by (rule of_int_less_iff)
  finally have v: "f32_value a < f32_value b \<longleftrightarrow> ia < ib" .
  show ?thesis
    unfolding v f32_ord_def ia_def ib_def using lt z by (cases "f32_sign a"; cases "f32_sign b") auto
qed

section \<open>Greedy decoding\<close>

lemma emit_simps [simp]: "fst (emit e st) = fst st" "snd (emit e st) = snd st @ [(e, slots_of (fst st))]"
  by (simp_all add: emit_def)

lemma decode_loop_inv:
  "decode_loop w pl step tok gen kv st = (st', r) \<Longrightarrow>
     fst st' = fst st \<and>
     (\<exists>k. snd st' = snd st @ replicate k (Run Decode, slots_of (fst st)) \<and>
          k \<le> MAX_NEW_TOKENS - 1 - step \<and>
          (\<forall>g. r = Some g \<longrightarrow>
             (\<exists>new. g = gen @ new \<and> length new = k \<and> (\<forall>i<k. \<not> is_eos ((tok # new) ! i)))))"
proof (induction w pl step tok gen kv st arbitrary: st' r rule: decode_loop.induct)
  case (1 w pl step tok gen kv st)
  show ?case
  proof (cases "step < MAX_NEW_TOKENS - 1 \<and> \<not> is_eos tok")
    case False
    with "1.prems" have "st' = st" "r = Some gen"
      by (auto simp add: decode_loop.simps [of w pl step tok gen kv st] split: if_splits)
    then show ?thesis
      by (intro conjI exI [of _ 0]) simp_all
  next
    case True
    define c where "c = fst st"
    define buf where "buf = embed_token_fp16 (embed_tokens_fp16 c) tok (hidden_dim c)"
    define st1 where "st1 = emit (Run Decode) st"
    show ?thesis
    proof (cases "run_decode w buf (int (pl + step)) kv")
      case None
      with True "1.prems" have "st' = st1" "r = None"
        by (auto simp add: decode_loop.simps [of w pl step tok gen kv st] Let_def c_def buf_def st1_def)
      then show ?thesis
        using True by (intro conjI exI [of _ 1]) (auto simp add: st1_def)
    next
      case (Some res)
      obtain logits kv' where res: "res = (logits, kv')" by (cases res)
      show ?thesis
      proof (cases "ort_ok w (Data_decode_logits step)")
        case False
        with True Some res "1.prems" have "st' = st1" "r = None"
          by (auto simp add: decode_loop.simps [of w pl step tok gen kv st] Let_def c_def buf_def st1_def)
        then show ?thesis
          using True by (intro conjI exI [of _ 1]) (auto simp add: st1_def)
      next
        case ok: True
        define tok' where "tok' = int (argmax_f32 logits (vocab_size c))"
        have rec: "decode_loop w pl (step + 1) tok' (gen @ [tok']) kv' st1 = (st', r)"
          using True Some res ok "1.prems"
          by (simp add: decode_loop.simps [of w pl step tok gen kv st] Let_def c_def buf_def st1_def tok'_def)
        have IH: "fst st' = fst st1 \<and>
           (\<exists>k. snd st' = snd st1 @ replicate k (Run Decode, slots_of (fst st1)) \<and>
              k \<le> MAX_NEW_TOKENS - 1 - (step + 1) \<and>
              (\<forall>g. r = Some g \<longrightarrow>
                 (\<exists>new. g = (gen @ [tok']) @ new \<and> length new = k \<and>
                    (\<forall>i<k. \<not> is_eos ((tok' # new) ! i)))))"
        proof -
          have t: "step < MAX_NEW_TOKENS - 1" "\<not> is_eos tok" using True by simp_all
          have run: "run_decode w (embed_token_fp16 (embed_tokens_fp16 (fst st)) tok (hidden_dim (fst st)))
              (int (pl + step)) kv = Some res"
            using Some by (simp add: buf_def c_def)
          have nn: "\<not> \<not> ort_ok w (Data_decode_logits step)" using ok by simp
          have rec': "decode_loop w pl (step + 1) (int (argmax_f32 logits (vocab_size (fst st))))
              (gen @ [int (argmax_f32 logits (vocab_size (fst st)))]) kv' (emit (Run Decode) st) = (st', r)"
            using rec by (simp add: tok'_def c_def st1_def)
          from "1.IH" [OF t refl refl refl refl run res [symmetric] nn refl rec']
          show ?thesis by (simp add: tok'_def c_def st1_def)
        qed
        then obtain k where k: "fst st' = fst st1"
            "snd st' = snd st1 @ replicate k (Run Decode, slots_of (fst st1))"
            "k \<le> MAX_NEW_TOKENS - 1 - (step + 1)"
            "\<forall>g. r = Some g \<longrightarrow>
                 (\<exists>new. g = (gen @ [tok']) @ new \<and> length new = k \<and>
                    (\<forall>i<k. \<not> is_eos ((tok' # new) ! i)))"
          by blast
        show ?thesis
        proof (intro conjI exI [of _ "Suc k"] allI impI)
          show "fst st' = fst st" using k(1) by (simp add: st1_def)
          show "snd st' = snd st @ replicate (Suc k) (Run Decode, slots_of (fst st))"
            using k(2) by (simp add: st1_def replicate_append_same)
          show "Suc k \<le> MAX_NEW_TOKENS - 1 - step"
            using k(3) True by auto
        next
          fix g assume "r = Some g"
          with k(4) obtain new where new: "g = (gen @ [tok']) @ new" "length new = k"
              "\<forall>i<k. \<not> is_eos ((tok' # new) ! i)"
            by blast
          show "\<exists>new. g = gen @ new \<and> length new = Suc k \<and> (\<forall>i<Suc k. \<not> is_eos ((tok # new) ! i))"
          proof (intro exI [of _ "tok' # new"] conjI allI impI)
            show "g = gen @ tok' # new" using new(1) by simp
            show "length (tok' # new) = Suc k" using new(2) by simp
            fix i assume "i < Suc k"
            then show "\<not> is_eos ((tok # (tok' # new)) ! i)"
              using new(3) True by (cases i) simp_all
          qed
        qed
      qed
    qed
  qed
qed

lemma is_eos_iff: "is_eos t \<longleftrightarrow> t = 151643 \<or> t = 151645"
  by (auto simp add: is_eos_def N_EOS_def EOS_TOKENS_def list_ex_iff less_Suc_eq numeral_2_eq_2)

text \<open>
  Claim C3. Whatever the model answers, the decode loop returns after some number
  \<open>k \<le> 1023 = MAX_NEW_TOKENS - 1\<close> of iterations, each of which ran the decode session
  once; when it ends normally the stream, prefill token included, holds \<open>k + 1 \<le> 1024\<close>
  tokens, and the token current at each of the \<open>k\<close> iterations was no EOS token. At any
  step, a current token in the EOS set makes the loop return immediately, without
  another run of the decode session.
\<close>

theorem decode_loop_halts:
  "(\<exists>k\<le>1023.
      fst (decode_loop w prompt_len 0 token [token] kv st)
        = (fst st, snd st @ replicate k (Run Decode, slots_of (fst st))) \<and>
      (\<forall>g. snd (decode_loop w prompt_len 0 token [token] kv st) = Some g \<longrightarrow>
         length g = k + 1 \<and> length g \<le> 1024 \<and> (\<forall>i<k. \<not> is_eos (g ! i)))) \<and>
   (is_eos tok \<longrightarrow> decode_loop w prompt_len step tok generated kv st = (st, Some generated))"
proof (intro conjI impI)
  obtain st' r where res: "decode_loop w prompt_len 0 token [token] kv st = (st', r)"
    by (cases "decode_loop w prompt_len 0 token [token] kv st")
  from decode_loop_inv [OF res] obtain k where k: "fst st' = fst st"
      "snd st' = snd st @ replicate k (Run Decode, slots_of (fst st))"
      "k \<le> MAX_NEW_TOKENS - 1 - 0"
      "\<forall>g. r = Some g \<longrightarrow> (\<exists>new. g = [token] @ new \<and> length new = k \<and> (\<forall>i<k. \<not> is_eos ((token # new) ! i)))"
    by blast
  have 1: "k \<le> 1023" using k(3) by (simp add: MAX_NEW_TOKENS_def)
  have 2: "fst (decode_loop w prompt_len 0 token [token] kv st)
        = (fst st, snd st @ replicate k (Run Decode, slots_of (fst st)))"
    using k(1,2) by (simp add: res prod_eq_iff)
  have 3: "length g = k + 1 \<and> length g \<le> 1024 \<and> (\<forall>i<k. \<not> is_eos (g ! i))"
    if "snd (decode_loop w prompt_len 0 token [token] kv st) = Some g" for g
  proof -
    from that have "r = Some g" by (simp add: res)
    with k(4) obtain new where new: "g = [token] @ new" "length new = k"
        "\<forall>i<k. \<not> is_eos ((token # new) ! i)"
      by blast
    then show ?thesis using k(3) by (simp add: MAX_NEW_TOKENS_def)
  qed
  show "\<exists>k\<le>1023.
      fst (decode_loop w prompt_len 0 token [token] kv st)
        = (fst st, snd st @ replicate k (Run Decode, slots_of (fst st))) \<and>
      (\<forall>g. snd (decode_loop w prompt_len 0 token [token] kv st) = Some g \<longrightarrow>
         length g = k + 1 \<and> length g \<le> 1024 \<and> (\<forall>i<k. \<not> is_eos (g ! i)))"
    using 1 2 3 by blast
next
  assume "is_eos tok"
  then show "decode_loop w prompt_len step tok generated kv st = (st, Some generated)"
    by (simp add: decode_loop.simps [of w prompt_len step tok generated kv st])
qed

theorem decode_loop_halts_witness:
  "is_eos 151645 \<and> decode_loop demo_ort 17 3 151645 [1, 1, 1, 151645] () (demo_ctx, []) = ((demo_ctx, []), Some [1, 1, 1, 151645])"
  using decode_loop_halts [of demo_ort 17 1 "()" "(demo_ctx, [])" 151645 3 "[1, 1, 1, 151645]"]
  by (simp add: is_eos_iff)

section \<open>Padding of the mel spectrogram\<close>

lemma c_rem_nonneg: "0 \<le> a \<Longrightarrow> 0 < b \<Longrightarrow> c_rem a b = a mod b"
  by (cases "a = 0") (simp_all add: c_rem_def)

lemma pad_frames_eq:
  assumes "0 \<le> n"
  shows "c_rem (CHUNK_SIZE - c_rem n CHUNK_SIZE) CHUNK_SIZE = (- n) mod 100"
proof -
  have "c_rem n CHUNK_SIZE = n mod 100"
    using assms by (simp add: c_rem_nonneg CHUNK_SIZE_def)
  moreover have "0 \<le> 100 - n mod 100" 
    using pos_mod_bound [of 100 n] by simp
  ultimately have "c_rem (CHUNK_SIZE - c_rem n CHUNK_SIZE) CHUNK_SIZE = (100 - n mod 100) mod 100"
    by (simp add: c_rem_nonneg CHUNK_SIZE_def)
  also have "\<dots> = (- n) mod 100"
    by (metis minus_mod_self1 mod_diff_right_eq mod_minus_eq diff_0)
  finally show ?thesis .
qed

text \<open>The frame count after padding, and the flat content of the buffer.\<close>

lemma pad_mel_frames:
  assumes "0 \<le> n"
  shows "snd (pad_mel bins mel n) = n + (- n) mod 100"
    and "100 dvd snd (pad_mel bins mel n)"
    and "n \<le> snd (pad_mel bins mel n)"
    and "\<And>m. n \<le> m \<Longrightarrow> 100 dvd m \<Longrightarrow> snd (pad_mel bins mel n) \<le> m"
    and "100 dvd n \<Longrightarrow> pad_mel bins mel n = (mel, n)"
proof -
  show s: "snd (pad_mel bins mel n) = n + (- n) mod 100"
    using assms by (simp add: pad_mel_def Let_def pad_frames_eq)
  show d: "100 dvd snd (pad_mel bins mel n)"
    unfolding s by (simp add: dvd_eq_mod_eq_0 mod_add_right_eq)
  show "n \<le> snd (pad_mel bins mel n)"
    unfolding s by simp
  show "snd (pad_mel bins mel n) \<le> m" if "n \<le> m" "100 dvd m" for m
  proof -
    from that(2) d have "100 dvd m - snd (pad_mel bins mel n)" by (rule dvd_diff)
    moreover have "m - snd (pad_mel bins mel n) > - 100"
      unfolding s using that(1) pos_mod_bound [of 100 "- n"] by simp
    ultimately have "0 \<le> m - snd (pad_mel bins mel n)"
      by (auto elim!: dvdE)
    then show ?thesis by simp
  qed
  show "pad_mel bins mel n = (mel, n)" if "100 dvd n"
  proof -
    from that have "100 dvd - n" by simp
    then have "(- n) mod 100 = 0" by (simp only: dvd_eq_mod_eq_0)
    then show ?thesis
      using assms by (simp add: pad_mel_def Let_def pad_frames_eq)
  qed
qed

lemma pad_mel_flat:
  assumes "0 \<le> n" "length mel = bins * nat n"
  shows "fst (pad_mel bins mel n) = mel @ replicate (bins * nat (snd (pad_mel bins mel n)) - bins * nat n) 0"
proof (cases "0 < (- n) mod 100")
  case True
  then show ?thesis
    using assms by (simp add: pad_mel_def Let_def pad_frames_eq memcpy_at_def)
next
  case False
  then have "(- n) mod 100 = 0"
    using pos_mod_sign [of 100 "- n"] by simp
  then show ?thesis
    using assms by (simp add: pad_mel_def Let_def pad_frames_eq)
qed

text \<open>
  Claim C8. The frame count is padded as claimed (\<open>pad_mel_frames\<close>), but the data is
  copied by one flat \<^verbatim>\<open>memcpy\<close> of \<^verbatim>\<open>QWEN_MEL_BINS * n_frames\<close> floats
  (\<open>pad_mel_flat\<close>), while the rows of the padded matrix are \<open>padded_frames\<close> apart.
  With 128 bins and 150 frames, padded to 200: the value of bin 1 in frame 149 was
  \<open>2.0\<close> and is \<open>3.0\<close> afterwards (it is what bin 2 had in frame 49), and frame 150
  of bin 0, an appended column, holds \<open>2.0\<close> instead of zero.
\<close>

theorem pad_mel_moves_columns:
  "snd (pad_mel 128 (replicate 150 0x3F800000 @ replicate 150 0x40000000 @ replicate 18900 0x40400000) 150) = 200
   \<and> mel_at (replicate 150 0x3F800000 @ replicate 150 0x40000000 @ replicate 18900 0x40400000) 150 1 149
        = 0x40000000
   \<and> mel_at (fst (pad_mel 128 (replicate 150 0x3F800000 @ replicate 150 0x40000000 @ replicate 18900 0x40400000) 150))
        200 1 149 = 0x40400000
   \<and> mel_at (fst (pad_mel 128 (replicate 150 0x3F800000 @ replicate 150 0x40000000 @ replicate 18900 0x40400000) 150))
        200 0 150 = 0x40000000"
  by (simp add: pad_mel_def Let_def c_rem_def CHUNK_SIZE_def memcpy_at_def mel_at_def nth_append)

section \<open>The prompt embedding buffer\<close>

lemma length_embed_token_fp16 [simp]: "length (embed_token_fp16 e t h) = h"
  by (simp add: embed_token_fp16_def)

lemma memcpy_at_append:
  "length pre = off \<Longrightarrow> memcpy_at (pre @ rest) off src = pre @ src @ drop (length src) rest"
  by (simp add: memcpy_at_def)

lemma length_concat_rows:
  "\<forall>i<k. length (row i) = h \<Longrightarrow> length (concat (map row [0..<k])) = k * h"
  by (induction k) simp_all

lemma fold_memcpy_rows:
  assumes "\<forall>i<k. length (row i) = h" "(base + k) * h \<le> length buf"
  shows "fold (\<lambda>i b. memcpy_at b ((base + i) * h) (row i)) [0..<k] buf
     = take (base * h) buf @ concat (map row [0..<k]) @ drop ((base + k) * h) buf"
  using assms
proof (induction k)
  case 0
  then show ?case by simp
next
  case (Suc k)
  define pre where "pre = take (base * h) buf @ concat (map row [0..<k])"
  have "base * h \<le> length buf"
    using Suc.prems(2) by (simp add: add_mult_distrib)
  moreover have "length (concat (map row [0..<k])) = k * h"
    using Suc.prems(1) by (intro length_concat_rows) simp
  ultimately have len_pre: "length pre = (base + k) * h"
    by (simp add: pre_def add_mult_distrib)
  have IH: "fold (\<lambda>i b. memcpy_at b ((base + i) * h) (row i)) [0..<k] buf
      = pre @ drop ((base + k) * h) buf"
    using Suc.prems by (simp add: Suc.IH pre_def)
  have "fold (\<lambda>i b. memcpy_at b ((base + i) * h) (row i)) [0..<Suc k] buf
      = memcpy_at (pre @ drop ((base + k) * h) buf) ((base + k) * h) (row k)"
    by (simp add: IH)
  also have "\<dots> = pre @ row k @ drop (length (row k)) (drop ((base + k) * h) buf)"
    using len_pre by (rule memcpy_at_append)
  also have "\<dots> = take (base * h) buf @ concat (map row [0..<Suc k]) @ drop ((base + Suc k) * h) buf"
    using Suc.prems(1) by (simp add: pre_def add_mult_distrib add.commute add.left_commute)
  finally show ?case .
qed

lemma map_nth_upt: "n = length xs \<Longrightarrow> map (\<lambda>i. f (xs ! i)) [0..<n] = map f xs"
proof -
  assume n: "n = length xs"
  have "map f xs = map f (map ((!) xs) [0..<length xs])"
    by (simp only: map_nth)
  then show ?thesis
    by (simp add: n comp_def)
qed

lemma build_input_embeds_layout:
  assumes "length audio_embeds = n_audio * hidden_dim c"
    and "length input_embeds = (N_PREFIX + n_audio + N_SUFFIX) * hidden_dim c"
  shows "build_input_embeds c audio_embeds n_audio input_embeds
     = concat (map (\<lambda>t. embed_token_fp16 (embed_tokens_fp16 c) t (hidden_dim c)) PROMPT_PREFIX)
       @ audio_embeds
       @ concat (map (\<lambda>t. embed_token_fp16 (embed_tokens_fp16 c) t (hidden_dim c)) PROMPT_SUFFIX)"
proof -
  let ?h = "hidden_dim c"
  let ?pre = "\<lambda>i. embed_token_fp16 (embed_tokens_fp16 c) (PROMPT_PREFIX ! i) ?h"
  let ?suf = "\<lambda>i. embed_token_fp16 (embed_tokens_fp16 c) (PROMPT_SUFFIX ! i) ?h"
  define P where "P = concat (map ?pre [0..<N_PREFIX])"
  define S where "S = concat (map ?suf [0..<N_SUFFIX])"
  have lenP: "length P = N_PREFIX * ?h"
    unfolding P_def by (rule length_concat_rows) simp
  have lenS: "length S = N_SUFFIX * ?h"
    unfolding S_def by (rule length_concat_rows) simp
  have len: "length input_embeds = N_PREFIX * ?h + n_audio * ?h + N_SUFFIX * ?h"
    using assms(2) by (simp add: add_mult_distrib)
  have "fold (\<lambda>i buf. memcpy_at buf ((0 + i) * ?h) (?pre i)) [0..<N_PREFIX] input_embeds
      = take (0 * ?h) input_embeds @ P @ drop ((0 + N_PREFIX) * ?h) input_embeds"
    unfolding P_def using len by (intro fold_memcpy_rows) simp_all
  then have b1: "fold (\<lambda>i buf. memcpy_at buf (i * ?h) (?pre i)) [0..<N_PREFIX] input_embeds
      = P @ drop (N_PREFIX * ?h) input_embeds"
    by simp
  let ?B = "P @ audio_embeds @ drop (N_PREFIX * ?h + n_audio * ?h) input_embeds"
  have b2: "memcpy_at (P @ drop (N_PREFIX * ?h) input_embeds) (N_PREFIX * ?h) (take (n_audio * ?h) audio_embeds)
      = ?B"
    using lenP assms(1) by (simp add: memcpy_at_append add.commute)
  have lenB: "length ?B = (N_PREFIX + n_audio + N_SUFFIX) * ?h"
    using lenP assms(1) len by (simp add: add_mult_distrib)
  have takeB: "take ((N_PREFIX + n_audio) * ?h) ?B = P @ audio_embeds"
    using lenP assms(1) by (simp add: add_mult_distrib)
  have "fold (\<lambda>i buf. memcpy_at buf ((N_PREFIX + n_audio + i) * ?h) (?suf i)) [0..<N_SUFFIX] ?B
      = take ((N_PREFIX + n_audio) * ?h) ?B @ S @ drop ((N_PREFIX + n_audio + N_SUFFIX) * ?h) ?B"
    unfolding S_def using lenB by (intro fold_memcpy_rows) simp_all
  then have b3: "fold (\<lambda>i buf. memcpy_at buf ((N_PREFIX + n_audio + i) * ?h) (?suf i)) [0..<N_SUFFIX] ?B
      = P @ audio_embeds @ S"
    using lenB by (simp only: takeB) simp
  have "build_input_embeds c audio_embeds n_audio input_embeds = P @ audio_embeds @ S"
    unfolding build_input_embeds_def Let_def
    by (simp only: b1 b2 b3)
  moreover have "P = concat (map (\<lambda>t. embed_token_fp16 (embed_tokens_fp16 c) t ?h) PROMPT_PREFIX)"
    unfolding P_def
    by (subst map_nth_upt) (simp_all add: N_PREFIX_def PROMPT_PREFIX_def)
  moreover have "S = concat (map (\<lambda>t. embed_token_fp16 (embed_tokens_fp16 c) t ?h) PROMPT_SUFFIX)"
    unfolding S_def
    by (subst map_nth_upt) (simp_all add: N_SUFFIX_def PROMPT_SUFFIX_def)
  ultimately show ?thesis
    by simp
qed

lemma is_fp32_of_the: "is_fp32_of h (the (fp16_to_f32 h))"
proof -
  consider (zero) "fp16_exp h = 0" "fp16_mant h = 0"
    | (sub) "fp16_exp h = 0" "fp16_mant h \<noteq> 0"
    | (top) "fp16_exp h = 31"
    | (normal) "0 < fp16_exp h" "fp16_exp h < 31"
    using fp16_exp_lt [of h] by linarith
  then show ?thesis
  proof cases
    case zero
    from fp16_to_f32_zero [OF zero] obtain f where
      f: "fp16_to_f32 h = Some f" "f32_sign f = fp16_sign h" "f32_exp f = 0" "f32_mant f = 0"
      by blast
    then show ?thesis
      using zero by (simp add: is_fp32_of_def f32_value_def fp16_value_def)
  next
    case sub
    from fp16_to_f32_sub [OF sub] obtain f s where
      f: "fp16_to_f32 h = Some f" "f32_sign f = fp16_sign h" "1 \<le> s" "s \<le> 10"
        "f32_exp f = 113 - s" "2 ^ 23 + f32_mant f = 2 ^ 13 * (fp16_mant h * 2 ^ s)"
      by blast
    have "f32_value f = fp16_value h"
      using f(2,5,6) sub(1) f(3,4) by (rule f32_value_sub_exact)
    then show ?thesis
      using f(1,2) sub by (simp add: is_fp32_of_def)
  next
    case top
    from fp16_to_f32_top [OF top] obtain f where
      f: "fp16_to_f32 h = Some f" "f32_sign f = fp16_sign h" "f32_exp f = 255"
        "f32_mant f = 2 ^ 13 * fp16_mant h"
      by blast
    then show ?thesis
      using top by (simp add: is_fp32_of_def)
  next
    case normal
    from fp16_to_f32_normal [OF normal] obtain f where
      f: "fp16_to_f32 h = Some f" "f32_sign f = fp16_sign h" "f32_exp f = fp16_exp h + 112"
        "f32_mant f = 2 ^ 13 * fp16_mant h"
      by blast
    have "f32_value f = fp16_value h"
      using f(2,3,4) normal(1) by (rule f32_value_normal_exact)
    then show ?thesis
      using f normal by (simp add: is_fp32_of_def)
  qed
qed

lemma nth_concat_rows:
  assumes "\<forall>x\<in>set xs. length (row x) = h" "r < length xs" "i < h"
  shows "concat (map row xs) ! (r * h + i) = row (xs ! r) ! i"
  using assms
proof (induction xs arbitrary: r)
  case Nil
  then show ?case by simp
next
  case (Cons x xs)
  show ?case
  proof (cases r)
    case 0
    then show ?thesis using Cons.prems by (simp add: nth_append)
  next
    case (Suc r')
    have "concat (map row (x # xs)) ! (r * h + i) = concat (map row xs) ! (r' * h + i)"
      using Cons.prems Suc by (simp add: nth_append)
    also have "\<dots> = row (xs ! r') ! i"
      using Cons.prems Suc by (intro Cons.IH) simp_all
    finally show ?thesis using Suc by simp
  qed
qed

lemma length_concat_const:
  "\<forall>x\<in>set xs. length (row x) = h \<Longrightarrow> length (concat (map row xs)) = length xs * h"
  by (induction xs) simp_all

lemma embed_token_fp16_nth:
  "i < h \<Longrightarrow> embed_token_fp16 e t h ! i = the (fp16_to_f32 (e (nat t * h + i)))"
  by (simp add: embed_token_fp16_def)

lemma build_input_embeds_fields:
  "hidden_dim c' = hidden_dim c \<Longrightarrow> embed_tokens_fp16 c' = embed_tokens_fp16 c \<Longrightarrow>
     build_input_embeds c' audio_embeds n_audio input_embeds
       = build_input_embeds c audio_embeds n_audio input_embeds"
  by (simp add: build_input_embeds_def)

lemma prefill_stage_input:
  assumes "buf = build_input_embeds c audio_embeds n_audio
      (map (heap_garbage w) [0..<(N_PREFIX + n_audio + N_SUFFIX) * hidden_dim c])"
  shows "prefill_stage w audio_embeds n_audio (c, evs)
     = prefill_stage (w\<lparr>run_prefill := \<lambda>b n. if b = buf \<and> n = N_PREFIX + n_audio + N_SUFFIX
                                              then run_prefill w b n else None\<rparr>)
         audio_embeds n_audio (c, evs)"
proof -
  have b: "build_input_embeds c' audio_embeds n_audio
      (map (heap_garbage w) [0..<(N_PREFIX + n_audio + N_SUFFIX) * hidden_dim c]) = buf"
    if "hidden_dim c' = hidden_dim c" "embed_tokens_fp16 c' = embed_tokens_fp16 c" for c'
    unfolding assms using that by (rule build_input_embeds_fields)
  show ?thesis
    by (simp add: prefill_stage_def load_on_demand_def Let_def slot_loaded_def set_slot_def b
        split: option.splits)
qed


lemma prefix_ids:
  assumes "r < 9"
  shows "nat (PROMPT_PREFIX ! r) = [151644, 8948, 198, 151645, 198, 151644, 872, 198, 151669] ! r"
proof -
  from assms have "r = 0 \<or> r = 1 \<or> r = 2 \<or> r = 3 \<or> r = 4 \<or> r = 5 \<or> r = 6 \<or> r = 7 \<or> r = 8"
    by arith
  then show ?thesis
    by (elim disjE) (simp_all add: PROMPT_PREFIX_def)
qed

lemma suffix_ids:
  assumes "r < 6"
  shows "nat (PROMPT_SUFFIX ! r) = [151670, 151645, 198, 151644, 77091, 198] ! r"
proof -
  from assms have "r = 0 \<or> r = 1 \<or> r = 2 \<or> r = 3 \<or> r = 4 \<or> r = 5"
    by arith
  then show ?thesis
    by (elim disjE) (simp_all add: PROMPT_SUFFIX_def)
qed

text \<open>
  Claim C2. For an encoder output of \<open>n_audio\<close> rows of \<open>hidden_dim\<close> floats, the
  prefill stage of \<open>qwen_onnx_transcribe\<close> hands the prefill graph one buffer
  \<open>buf\<close> and the row count \<open>9 + n_audio + 6\<close>, and nothing else: a graph that
  refuses every other input gives the same run. The buffer holds
  \<open>(9 + n_audio + 6) * hidden_dim\<close> floats. Row \<open>r\<close> of the first nine is row
  \<open>t\<close> of the embedding matrix, \<open>t\<close> the \<open>r\<close>-th of the ids 151644, 8948, 198,
  151645, 198, 151644, 872, 198, 151669, each half in its binary32 form; then come the
  floats of the encoder output, unchanged; row \<open>r\<close> of the last six is row \<open>t\<close> of
  the matrix, \<open>t\<close> the \<open>r\<close>-th of the ids 151670, 151645, 198, 151644, 77091, 198.
  Every float of the buffer is covered, so nothing of the allocated memory is left.
\<close>

theorem prompt_buffer_layout:
  assumes "length audio_embeds = n_audio * hidden_dim c"
  shows "\<exists>buf. length buf = (9 + n_audio + 6) * hidden_dim c \<and>
     (\<forall>r<9. \<forall>i<hidden_dim c.
        is_fp32_of
          (embed_tokens_fp16 c
            ([151644, 8948, 198, 151645, 198, 151644, 872, 198, 151669] ! r * hidden_dim c + i))
          (buf ! (r * hidden_dim c + i))) \<and>
     (\<forall>j<n_audio * hidden_dim c. buf ! (9 * hidden_dim c + j) = audio_embeds ! j) \<and>
     (\<forall>r<6. \<forall>i<hidden_dim c.
        is_fp32_of
          (embed_tokens_fp16 c
            ([151670, 151645, 198, 151644, 77091, 198] ! r * hidden_dim c + i))
          (buf ! ((9 + n_audio + r) * hidden_dim c + i))) \<and>
     prefill_stage w audio_embeds n_audio (c, evs)
       = prefill_stage
           (w\<lparr>run_prefill := \<lambda>b n. if b = buf \<and> n = 9 + n_audio + 6 then run_prefill w b n
                                    else None\<rparr>)
           audio_embeds n_audio (c, evs)"
proof -
  let ?h = "hidden_dim c"
  let ?row = "\<lambda>t. embed_token_fp16 (embed_tokens_fp16 c) t ?h"
  define P where "P = concat (map ?row PROMPT_PREFIX)"
  define S where "S = concat (map ?row PROMPT_SUFFIX)"
  define buf where "buf = build_input_embeds c audio_embeds n_audio
      (map (heap_garbage w) [0..<(N_PREFIX + n_audio + N_SUFFIX) * ?h])"
  have buf: "buf = P @ audio_embeds @ S"
    unfolding buf_def P_def S_def using assms by (intro build_input_embeds_layout) simp_all
  have lenP: "length P = 9 * ?h"
    unfolding P_def by (subst length_concat_const [where h = ?h]) (simp_all add: PROMPT_PREFIX_def)
  have lenS: "length S = 6 * ?h"
    unfolding S_def by (subst length_concat_const [where h = ?h]) (simp_all add: PROMPT_SUFFIX_def)
  have len: "length buf = (9 + n_audio + 6) * ?h"
    using lenP lenS assms by (simp add: buf add_mult_distrib)
  have pre: "is_fp32_of
          (embed_tokens_fp16 c
            ([151644, 8948, 198, 151645, 198, 151644, 872, 198, 151669] ! r * ?h + i))
          (buf ! (r * ?h + i))" if "r < 9" "i < ?h" for r i
  proof -
    have "r * ?h + i < 9 * ?h"
    proof -
      have "r * ?h + i < (r + 1) * ?h" using that(2) by simp
      also have "\<dots> \<le> 9 * ?h" using that(1) by (intro mult_le_mono1) simp
      finally show ?thesis .
    qed
    then have "buf ! (r * ?h + i) = P ! (r * ?h + i)"
      using lenP by (simp add: buf nth_append)
    also have "\<dots> = ?row (PROMPT_PREFIX ! r) ! i"
      unfolding P_def using that by (intro nth_concat_rows) (simp_all add: PROMPT_PREFIX_def)
    also have "\<dots> = the (fp16_to_f32 (embed_tokens_fp16 c (nat (PROMPT_PREFIX ! r) * ?h + i)))"
      using that(2) by (rule embed_token_fp16_nth)
    finally show ?thesis
      using is_fp32_of_the by (simp add: prefix_ids [OF that(1)])
  qed
  have mid: "buf ! (9 * ?h + j) = audio_embeds ! j" if "j < n_audio * ?h" for j
    using that lenP assms by (simp add: buf nth_append)
  have suf: "is_fp32_of
          (embed_tokens_fp16 c
            ([151670, 151645, 198, 151644, 77091, 198] ! r * ?h + i))
          (buf ! ((9 + n_audio + r) * ?h + i))" if "r < 6" "i < ?h" for r i
  proof -
    have "(9 + n_audio + r) * ?h + i = length (P @ audio_embeds) + (r * ?h + i)"
      using lenP assms by (simp add: add_mult_distrib)
    then have "buf ! ((9 + n_audio + r) * ?h + i) = S ! (r * ?h + i)"
      unfolding buf by (simp only: append_assoc [symmetric] nth_append_length_plus)
    also have "\<dots> = ?row (PROMPT_SUFFIX ! r) ! i"
      unfolding S_def using that by (intro nth_concat_rows) (simp_all add: PROMPT_SUFFIX_def)
    also have "\<dots> = the (fp16_to_f32 (embed_tokens_fp16 c (nat (PROMPT_SUFFIX ! r) * ?h + i)))"
      using that(2) by (rule embed_token_fp16_nth)
    finally show ?thesis
      using is_fp32_of_the by (simp add: suffix_ids [OF that(1)])
  qed
  have tie: "prefill_stage w audio_embeds n_audio (c, evs)
       = prefill_stage
           (w\<lparr>run_prefill := \<lambda>b n. if b = buf \<and> n = 9 + n_audio + 6 then run_prefill w b n
                                    else None\<rparr>)
           audio_embeds n_audio (c, evs)"
    using prefill_stage_input [OF buf_def, where evs = evs] by (simp add: N_PREFIX_def N_SUFFIX_def)
  show ?thesis
    using len pre mid suf tie by (intro exI [of _ buf] conjI allI impI)
qed


theorem prompt_buffer_layout_witness:
  "\<exists>buf. length buf = 34 \<and> buf ! 0 = 0x3F800000 \<and> buf ! 17 = 0x3F800000
     \<and> buf ! 18 = 0x3F800000 \<and> buf ! 19 = 0 \<and> buf ! 20 = 0 \<and> buf ! 21 = 0x3F800000
     \<and> buf ! 22 = 0x3F800000 \<and> buf ! 33 = 0x3F800000
     \<and> prefill_stage demo_ort [0x3F800000, 0, 0, 0x3F800000] 2 (demo_ctx, [])
       = prefill_stage
           (demo_ort\<lparr>run_prefill := \<lambda>b n. if b = buf \<and> n = 17 then run_prefill demo_ort b n
                                           else None\<rparr>)
           [0x3F800000, 0, 0, 0x3F800000] 2 (demo_ctx, [])"
proof -
  have h: "hidden_dim demo_ctx = 2" "\<And>i. embed_tokens_fp16 demo_ctx i = 0x3C00"
    by (simp_all add: demo_ctx_def)
  have one: "is_fp32_of 0x3C00 f \<Longrightarrow> f = 0x3F800000" for f
    by (simp add: is_fp32_of_def fp16_to_f32_def)
  from prompt_buffer_layout [of "[0x3F800000, 0, 0, 0x3F800000]" 2 demo_ctx demo_ort "[]"]
  obtain buf where buf: "length buf = 34"
    "\<forall>r<9. \<forall>i<2. is_fp32_of 0x3C00 (buf ! (r * 2 + i))"
    "\<forall>j<4. buf ! (18 + j) = [0x3F800000, 0, 0, 0x3F800000] ! j"
    "\<forall>r<6. \<forall>i<2. is_fp32_of 0x3C00 (buf ! ((11 + r) * 2 + i))"
    "prefill_stage demo_ort [0x3F800000, 0, 0, 0x3F800000] 2 (demo_ctx, [])
       = prefill_stage
           (demo_ort\<lparr>run_prefill := \<lambda>b n. if b = buf \<and> n = 17 then run_prefill demo_ort b n
                                           else None\<rparr>)
           [0x3F800000, 0, 0, 0x3F800000] 2 (demo_ctx, [])"
    by (auto simp add: h)
  have "buf ! 0 = 0x3F800000"
    using buf(2) [rule_format, of 0 0] by (simp add: one)
  moreover have "buf ! 17 = 0x3F800000"
    using buf(2) [rule_format, of 8 1] by (simp add: one)
  moreover have "buf ! 18 = 0x3F800000" "buf ! 19 = 0" "buf ! 20 = 0" "buf ! 21 = 0x3F800000"
    using buf(3) [rule_format, of 0] buf(3) [rule_format, of 1] buf(3) [rule_format, of 2]
      buf(3) [rule_format, of 3] by simp_all
  moreover have "buf ! 22 = 0x3F800000"
    using buf(4) [rule_format, of 0 0] by (simp add: one)
  moreover have "buf ! 33 = 0x3F800000"
    using buf(4) [rule_format, of 5 1] by (simp add: one)
  ultimately show ?thesis
    using buf(1,5) by (intro exI [of _ buf] conjI)
qed

section \<open>Tokens to text\<close>

lemma pieces_simps [simp]:
  "pieces tk [] = []"
  "pieces tk (t # ts) = (case tk t of None \<Rightarrow> [] | Some piece \<Rightarrow> piece) @ pieces tk ts"
  by (simp_all add: pieces_def)

lemma text_append_fits:
  assumes "length piece \<le> 4096" "4096 \<le> cap" "length s + 1 \<le> cap"
  shows "\<exists>cap'. text_append (s, cap) piece = Some (s @ piece, cap') \<and> 4096 \<le> cap'
     \<and> length (s @ piece) + 1 \<le> cap'"
  using assms by (auto simp add: text_append_def Let_def)

lemma decode_past_asr_text_past:
  assumes "\<forall>t p. tk t = Some p \<longrightarrow> length p \<le> 4096" "4096 \<le> cap" "length s + 1 \<le> cap"
  shows "\<exists>cap'. decode_past_asr_text tk asr gs True (s, cap)
      = Some ((s @ pieces tk (filter (\<lambda>t. t \<noteq> asr) gs), cap'), True)
     \<and> 4096 \<le> cap' \<and> length (s @ pieces tk (filter (\<lambda>t. t \<noteq> asr) gs)) + 1 \<le> cap'"
  using assms(2,3)
proof (induction gs arbitrary: s cap)
  case Nil
  then show ?case by simp
next
  case (Cons g gs)
  show ?case
  proof (cases "g = asr")
    case True
    with Cons.IH [OF Cons.prems] show ?thesis by simp
  next
    case False
    show ?thesis
    proof (cases "tk g")
      case None
      with False Cons.IH [OF Cons.prems] show ?thesis by simp
    next
      case (Some piece)
      with assms(1) have "length piece \<le> 4096" by blast
      from text_append_fits [OF this Cons.prems] obtain cap1 where
        c1: "text_append (s, cap) piece = Some (s @ piece, cap1)" "4096 \<le> cap1"
          "length (s @ piece) + 1 \<le> cap1"
        by blast
      from Cons.IH [OF c1(2,3)] False Some c1(1) show ?thesis by simp
    qed
  qed
qed

lemma decode_past_asr_text_before:
  assumes "\<forall>t p. tk t = Some p \<longrightarrow> length p \<le> 4096" "4096 \<le> cap" "length s + 1 \<le> cap"
  shows "asr \<notin> set gs \<Longrightarrow> decode_past_asr_text tk asr gs False (s, cap) = Some ((s, cap), False)"
    and "asr \<in> set gs \<Longrightarrow> \<exists>cap'. decode_past_asr_text tk asr gs False (s, cap)
      = Some ((s @ pieces tk (filter (\<lambda>t. t \<noteq> asr) (tl (dropWhile (\<lambda>t. t \<noteq> asr) gs))), cap'), True)"
proof -
  show "asr \<notin> set gs \<Longrightarrow> decode_past_asr_text tk asr gs False (s, cap) = Some ((s, cap), False)"
    by (induction gs) auto
  show "asr \<in> set gs \<Longrightarrow> \<exists>cap'. decode_past_asr_text tk asr gs False (s, cap)
      = Some ((s @ pieces tk (filter (\<lambda>t. t \<noteq> asr) (tl (dropWhile (\<lambda>t. t \<noteq> asr) gs))), cap'), True)"
  proof (induction gs)
    case Nil
    then show ?case by simp
  next
    case (Cons g gs)
    show ?case
    proof (cases "g = asr")
      case True
      with decode_past_asr_text_past [OF assms, of asr gs] show ?thesis by auto
    next
      case False
      with Cons show ?thesis by simp
    qed
  qed
qed

lemma decode_all_tokens_pieces:
  assumes "\<forall>t p. tk t = Some p \<longrightarrow> length p \<le> 4096" "4096 \<le> cap" "length s + 1 \<le> cap"
  shows "\<exists>cap'. decode_all_tokens tk gs (s, cap)
      = Some (s @ pieces tk (filter (\<lambda>t. t < 151643) gs), cap')"
  using assms(2,3)
proof (induction gs arbitrary: s cap)
  case Nil
  then show ?case by simp
next
  case (Cons g gs)
  show ?case
  proof (cases "g \<ge> 151643")
    case True
    with Cons.IH [OF Cons.prems] show ?thesis by simp
  next
    case False
    show ?thesis
    proof (cases "tk g")
      case None
      with False Cons.IH [OF Cons.prems] show ?thesis by simp
    next
      case (Some piece)
      with assms(1) have "length piece \<le> 4096" by blast
      from text_append_fits [OF this Cons.prems] obtain cap1 where
        c1: "text_append (s, cap) piece = Some (s @ piece, cap1)" "4096 \<le> cap1"
          "length (s @ piece) + 1 \<le> cap1"
        by blast
      from Cons.IH [OF c1(2,3)] False Some c1(1) show ?thesis by simp
    qed
  qed
qed

lemma first_occurrence_drop:
  assumes "k < length gen" "gen ! k = asr" "\<forall>j<k. gen ! j \<noteq> asr"
  shows "tl (dropWhile (\<lambda>t. t \<noteq> asr) gen) = drop (k + 1) gen"
proof -
  have "takeWhile (\<lambda>t. t \<noteq> asr) gen = take k gen"
    using assms by (intro takeWhile_eq_take_P_nth) simp_all
  then have "dropWhile (\<lambda>t. t \<noteq> asr) gen = drop k gen"
    by (metis append_eq_conv_conj append_take_drop_id takeWhile_dropWhile_id length_take)
  then show ?thesis
    by (simp add: drop_Suc tl_drop)
qed

lemma strip_eos_spec:
  "\<exists>tail. generated = strip_eos generated @ tail \<and> (\<forall>t\<in>set tail. is_eos t) \<and>
     (strip_eos generated = [] \<or> \<not> is_eos (last (strip_eos generated)))"
proof (induction generated rule: strip_eos.induct)
  case (1 generated)
  show ?case
  proof (cases "generated \<noteq> [] \<and> is_eos (last generated)")
    case True
    then have s: "strip_eos generated = strip_eos (butlast generated)"
      by (simp add: strip_eos.simps [of generated])
    from "1.IH" [OF True] obtain tail where
      t: "butlast generated = strip_eos (butlast generated) @ tail" "\<forall>t\<in>set tail. is_eos t"
        "strip_eos (butlast generated) = [] \<or> \<not> is_eos (last (strip_eos (butlast generated)))"
      by blast
    have "generated = butlast generated @ [last generated]"
      using True by simp
    then have "generated = strip_eos generated @ (tail @ [last generated])"
      using t(1) s by (metis append.assoc)
    then show ?thesis
      using t(2,3) True s by (intro exI [of _ "tail @ [last generated]"]) simp
  next
    case False
    then have "strip_eos generated = generated"
      by (subst strip_eos.simps) auto
    then show ?thesis
      using False by (intro exI [of _ "[]"]) auto
  qed
qed

lemma trim_spec:
  "\<exists>l r. text = l @ trim text @ r \<and> (\<forall>c\<in>set l. is_trimmed_char c) \<and> (\<forall>c\<in>set r. is_trimmed_char c)
     \<and> (trim text \<noteq> [] \<longrightarrow> \<not> is_trimmed_char (hd (trim text)) \<and> \<not> is_trimmed_char (last (trim text)))"
proof -
  define l where "l = takeWhile is_trimmed_char text"
  define m where "m = dropWhile is_trimmed_char text"
  define r where "r = rev (takeWhile is_trimmed_char (rev m))"
  have t: "trim text = rev (dropWhile is_trimmed_char (rev m))"
    by (simp add: trim_def m_def)
  have "rev m = takeWhile is_trimmed_char (rev m) @ dropWhile is_trimmed_char (rev m)"
    by simp
  then have "m = trim text @ r"
    unfolding t r_def by (metis rev_append rev_rev_ident)
  then have 1: "text = l @ trim text @ r"
    unfolding l_def m_def by (metis takeWhile_dropWhile_id)
  have 2: "\<forall>c\<in>set l. is_trimmed_char c"
    unfolding l_def by (auto dest: set_takeWhileD)
  have 3: "\<forall>c\<in>set r. is_trimmed_char c"
    unfolding r_def by (auto dest: set_takeWhileD)
  have 4: "\<not> is_trimmed_char (hd (trim text)) \<and> \<not> is_trimmed_char (last (trim text))" if ne: "trim text \<noteq> []"
  proof -
    have "\<not> is_trimmed_char (last (trim text))"
      using ne unfolding t by (simp add: last_rev hd_dropWhile)
    moreover have "hd (trim text) = hd m"
      using ne \<open>m = trim text @ r\<close> by (metis hd_append2)
    moreover have "m \<noteq> []" using ne \<open>m = trim text @ r\<close> by auto
    ultimately show ?thesis
      unfolding m_def by (simp add: hd_dropWhile)
  qed
  from 1 2 3 4 show ?thesis by blast
qed

lemma is_trimmed_char_iff: "is_trimmed_char c \<longleftrightarrow> c \<in> {CHR 0x20, CHR 0x09, CHR 0x0A}"
  by (auto simp add: is_trimmed_char_def)

lemma detokenize_cases:
  assumes "\<forall>t p. tk t = Some p \<longrightarrow> length p \<le> 4096"
  shows "k < length (strip_eos generated) \<Longrightarrow> strip_eos generated ! k = asr \<Longrightarrow>
       \<forall>j<k. strip_eos generated ! j \<noteq> asr \<Longrightarrow>
       detokenize tk asr generated
         = Some (trim (pieces tk (filter (\<lambda>t. t \<noteq> asr) (drop (k + 1) (strip_eos generated)))))"
    and "asr \<notin> set (strip_eos generated) \<Longrightarrow>
       detokenize tk asr generated
         = Some (trim (pieces tk (filter (\<lambda>t. t < 151643) (strip_eos generated))))"
proof -
  assume k: "k < length (strip_eos generated)" "strip_eos generated ! k = asr"
    "\<forall>j<k. strip_eos generated ! j \<noteq> asr"
  then have mem: "asr \<in> set (strip_eos generated)"
    by (auto simp add: in_set_conv_nth)
  have d: "tl (dropWhile (\<lambda>t. t \<noteq> asr) (strip_eos generated)) = drop (k + 1) (strip_eos generated)"
    using k by (intro first_occurrence_drop) simp_all
  from decode_past_asr_text_before(2) [OF assms _ _ mem, of 4096 "[]"] obtain cap' where
    "decode_past_asr_text tk asr (strip_eos generated) False ([], 4096)
      = Some (([] @ pieces tk (filter (\<lambda>t. t \<noteq> asr) (tl (dropWhile (\<lambda>t. t \<noteq> asr) (strip_eos generated)))), cap'), True)"
    by auto
  then show "detokenize tk asr generated
         = Some (trim (pieces tk (filter (\<lambda>t. t \<noteq> asr) (drop (k + 1) (strip_eos generated)))))"
    by (simp add: detokenize_def Let_def d)
next
  assume nm: "asr \<notin> set (strip_eos generated)"
  have 1: "decode_past_asr_text tk asr (strip_eos generated) False ([], 4096) = Some (([], 4096), False)"
    using decode_past_asr_text_before(1) [OF assms _ _ nm, of 4096 "[]"] by simp
  from decode_all_tokens_pieces [OF assms, of 4096 "[]" "strip_eos generated"] obtain cap' where
    "decode_all_tokens tk (strip_eos generated) ([], 4096)
      = Some ([] @ pieces tk (filter (\<lambda>t. t < 151643) (strip_eos generated)), cap')"
    by auto
  then show "detokenize tk asr generated
         = Some (trim (pieces tk (filter (\<lambda>t. t < 151643) (strip_eos generated))))"
    by (simp add: detokenize_def Let_def 1)
qed

lemma trim_literal:
  "\<exists>l r. body = l @ trim body @ r
     \<and> set l \<subseteq> {CHR 0x20, CHR 0x09, CHR 0x0A} \<and> set r \<subseteq> {CHR 0x20, CHR 0x09, CHR 0x0A}
     \<and> (trim body \<noteq> [] \<longrightarrow> hd (trim body) \<notin> {CHR 0x20, CHR 0x09, CHR 0x0A}
           \<and> last (trim body) \<notin> {CHR 0x20, CHR 0x09, CHR 0x0A})"
proof -
  from trim_spec [of body] obtain l r where lr: "body = l @ trim body @ r"
    "\<forall>c\<in>set l. is_trimmed_char c" "\<forall>c\<in>set r. is_trimmed_char c"
    "trim body \<noteq> [] \<longrightarrow> \<not> is_trimmed_char (hd (trim body)) \<and> \<not> is_trimmed_char (last (trim body))"
    by blast
  have "set l \<subseteq> {CHR 0x20, CHR 0x09, CHR 0x0A}" "set r \<subseteq> {CHR 0x20, CHR 0x09, CHR 0x0A}"
    using lr(2,3) by (simp_all only: is_trimmed_char_iff subset_iff Ball_def)
  moreover have "trim body \<noteq> [] \<longrightarrow> hd (trim body) \<notin> {CHR 0x20, CHR 0x09, CHR 0x0A}
           \<and> last (trim body) \<notin> {CHR 0x20, CHR 0x09, CHR 0x0A}"
    using lr(4) by (simp only: is_trimmed_char_iff)
  ultimately show ?thesis
    using lr(1) by (intro exI [of _ l] exI [of _ r] conjI)
qed

text \<open>
  Claim C1. Let \<open>strip_eos generated\<close> be the stream without its trailing EOS tokens
  (151643 and 151645): \<open>generated\<close> is that stream followed by EOS tokens only, and the
  stream is empty or ends in another token. The call returns a text \<open>out\<close>. If the
  marker \<open>asr\<close> occurs in the stripped stream, first at position \<open>k\<close>, the
  concatenation of the pieces of the tokens behind position \<open>k\<close>, later occurrences of
  the marker left out, is \<open>l @ out @ r\<close>; if the marker does not occur, the
  concatenation of the pieces of all tokens below 151643 is \<open>l @ out @ r\<close>. Here
  \<open>l\<close> and \<open>r\<close> consist of the characters 0x20 (space), 0x09 (tab) and 0x0A
  (newline) only, and \<open>out\<close> neither begins nor ends with one of them, so \<open>out\<close>
  is the concatenation with exactly its leading and trailing spaces, tabs and newlines
  removed. The text buffer starts with 4096 bytes and is doubled once per piece that does
  not fit, so the tokenizer is taken to have no piece longer than 4096 bytes.
\<close>

theorem detokenize_spec:
  assumes "\<forall>t p. tk t = Some p \<longrightarrow> length p \<le> 4096"
  shows "\<exists>out l r. detokenize tk asr generated = Some out
     \<and> set l \<subseteq> {CHR 0x20, CHR 0x09, CHR 0x0A} \<and> set r \<subseteq> {CHR 0x20, CHR 0x09, CHR 0x0A}
     \<and> (out \<noteq> [] \<longrightarrow> hd out \<notin> {CHR 0x20, CHR 0x09, CHR 0x0A} \<and> last out \<notin> {CHR 0x20, CHR 0x09, CHR 0x0A})
     \<and> (\<forall>k<length (strip_eos generated).
          strip_eos generated ! k = asr \<and> (\<forall>j<k. strip_eos generated ! j \<noteq> asr) \<longrightarrow>
          pieces tk (filter (\<lambda>t. t \<noteq> asr) (drop (k + 1) (strip_eos generated))) = l @ out @ r)
     \<and> (asr \<notin> set (strip_eos generated) \<longrightarrow>
          pieces tk (filter (\<lambda>t. t < 151643) (strip_eos generated)) = l @ out @ r)
     \<and> (\<exists>tail. generated = strip_eos generated @ tail \<and> (\<forall>t\<in>set tail. t = 151643 \<or> t = 151645) \<and>
          (strip_eos generated = [] \<or> last (strip_eos generated) \<notin> {151643, 151645}))"
proof -
  define gen where "gen = strip_eos generated"
  define body where "body =
    (if asr \<in> set gen then pieces tk (filter (\<lambda>t. t \<noteq> asr) (tl (dropWhile (\<lambda>t. t \<noteq> asr) gen)))
     else pieces tk (filter (\<lambda>t. t < 151643) gen))"
  have first: "pieces tk (filter (\<lambda>t. t \<noteq> asr) (drop (k + 1) gen)) = body
      \<and> detokenize tk asr generated = Some (trim body)"
    if "k < length gen" "gen ! k = asr" "\<forall>j<k. gen ! j \<noteq> asr" for k
  proof -
    from that have mem: "asr \<in> set gen" by (auto simp add: in_set_conv_nth)
    have "tl (dropWhile (\<lambda>t. t \<noteq> asr) gen) = drop (k + 1) gen"
      using that by (intro first_occurrence_drop) simp_all
    then have "pieces tk (filter (\<lambda>t. t \<noteq> asr) (drop (k + 1) gen)) = body"
      using mem by (simp add: body_def)
    then show ?thesis
      using detokenize_cases(1) [OF assms, of k generated asr] that by (simp add: gen_def)
  qed
  have d: "detokenize tk asr generated = Some (trim body)"
  proof (cases "asr \<in> set gen")
    case True
    define k where "k = (LEAST k. k < length gen \<and> gen ! k = asr)"
    from True have ex: "\<exists>k. k < length gen \<and> gen ! k = asr"
      by (simp add: in_set_conv_nth)
    have 1: "k < length gen \<and> gen ! k = asr"
      unfolding k_def using ex by (rule LeastI_ex)
    have 2: "gen ! j \<noteq> asr" if "j < k" for j
    proof
      assume "gen ! j = asr"
      moreover have "j < length gen" using that 1 by simp
      ultimately have "k \<le> j" unfolding k_def by (intro Least_le) simp
      with that show False by simp
    qed
    show ?thesis using first [of k] 1 2 by blast
  next
    case False
    then show ?thesis
      using detokenize_cases(2) [OF assms, of asr generated] by (simp add: gen_def body_def)
  qed
  from trim_literal [of body] obtain l r where lr: "body = l @ trim body @ r"
    "set l \<subseteq> {CHR 0x20, CHR 0x09, CHR 0x0A}" "set r \<subseteq> {CHR 0x20, CHR 0x09, CHR 0x0A}"
    "trim body \<noteq> [] \<longrightarrow> hd (trim body) \<notin> {CHR 0x20, CHR 0x09, CHR 0x0A}
           \<and> last (trim body) \<notin> {CHR 0x20, CHR 0x09, CHR 0x0A}"
    by blast
  have tail: "\<exists>tail. generated = gen @ tail \<and> (\<forall>t\<in>set tail. t = 151643 \<or> t = 151645) \<and>
        (gen = [] \<or> last gen \<notin> {151643, 151645})"
    using strip_eos_spec [of generated] by (simp add: is_eos_iff gen_def)
  show ?thesis
    apply (rule exI [of _ "trim body"])
    apply (rule exI [of _ l])
    apply (rule exI [of _ r])
  proof (intro conjI allI impI)
    show "detokenize tk asr generated = Some (trim body)" by (rule d)
    show "set l \<subseteq> {CHR 0x20, CHR 0x09, CHR 0x0A}" "set r \<subseteq> {CHR 0x20, CHR 0x09, CHR 0x0A}"
      by (rule lr)+
    show "hd (trim body) \<notin> {CHR 0x20, CHR 0x09, CHR 0x0A}" if "trim body \<noteq> []"
      using lr(4) that by blast
    show "last (trim body) \<notin> {CHR 0x20, CHR 0x09, CHR 0x0A}" if "trim body \<noteq> []"
      using lr(4) that by blast
    show "pieces tk (filter (\<lambda>t. t \<noteq> asr) (drop (k + 1) (strip_eos generated))) = l @ trim body @ r"
      if "k < length (strip_eos generated)"
        "strip_eos generated ! k = asr \<and> (\<forall>j<k. strip_eos generated ! j \<noteq> asr)" for k
      using first [of k] that lr(1) [symmetric] by (simp add: gen_def)
    show "pieces tk (filter (\<lambda>t. t < 151643) (strip_eos generated)) = l @ trim body @ r"
      if "asr \<notin> set (strip_eos generated)"
      using that lr(1) [symmetric] by (simp add: body_def gen_def)
    show "\<exists>tail. generated = strip_eos generated @ tail \<and> (\<forall>t\<in>set tail. t = 151643 \<or> t = 151645) \<and>
        (strip_eos generated = [] \<or> last (strip_eos generated) \<notin> {151643, 151645})"
      using tail by (simp add: gen_def)
  qed
qed


theorem detokenize_spec_witness:
  "detokenize (tokenizer demo_ctx) 0 [5, 0, 1, 0, 1, 151645, 151643] = Some ''hi hi''
   \<and> detokenize (tokenizer demo_ctx) 7 [1, 151644, 1, 151643] = Some ''hi hi''"
  using detokenize_spec [of "tokenizer demo_ctx" 0 "[5, 0, 1, 0, 1, 151645, 151643]"]
    detokenize_spec [of "tokenizer demo_ctx" 7 "[1, 151644, 1, 151643]"]
  by (simp add: demo_ctx_def detokenize_def strip_eos.simps is_eos_iff text_append_def
      trim_def is_trimmed_char_def)

section \<open>Session lifecycle\<close>

lemma staged_simps [simp]:
  "staged []"
  "staged (evs @ evs') \<longleftrightarrow> staged evs \<and> staged evs'"
  "staged ((CreateSession sl, s) # evs) \<longleftrightarrow> staged evs"
  "staged ((ReleaseSession sl, s) # evs) \<longleftrightarrow> staged evs"
  "staged ((Run Encoder, s) # evs) \<longleftrightarrow> s = (True, False, False) \<and> staged evs"
  "staged ((Run Prefill, s) # evs) \<longleftrightarrow> s = (False, True, False) \<and> staged evs"
  "staged ((Run Decode, s) # evs) \<longleftrightarrow> s = (False, False, True) \<and> staged evs"
  by (simp_all add: staged_def)

lemma staged_replicate [simp]:
  "staged (replicate k (Run Decode, s)) \<longleftrightarrow> k = 0 \<or> s = (False, False, True)"
  by (cases k) (auto simp add: staged_def list_all_iff)

lemma release_stage_keep [simp]:
  "keep_sessions (fst (release_stage sl st)) = keep_sessions (fst st)"
  by (cases sl) (simp_all add: release_stage_def set_slot_def)

lemma release_stage_staged [simp]:
  "staged (snd (release_stage sl st)) = staged (snd st)"
  by (simp add: release_stage_def)

lemma release_stage_slots:
  assumes "\<not> keep_sessions (fst st)"
  shows "slots_of (fst (release_stage Encoder st)) = (False, prefill (fst st), decode (fst st))"
    and "slots_of (fst (release_stage Prefill st)) = (encoder (fst st), False, decode (fst st))"
    and "slots_of (fst (release_stage Decode st)) = (encoder (fst st), prefill (fst st), False)"
  using assms by (simp_all add: release_stage_def set_slot_def slot_loaded_def slots_of_def)

lemma slots_of_fields:
  "slots_of c = (e, p, d) \<longleftrightarrow> encoder c = e \<and> prefill c = p \<and> decode c = d"
  by (auto simp add: slots_of_def)

lemma cleanup_props:
  "staged (snd (cleanup st)) = staged (snd st)"
  "\<not> keep_sessions (fst st) \<Longrightarrow> slots_of (fst (cleanup st)) = (False, False, False)"
proof -
  show "staged (snd (cleanup st)) = staged (snd st)"
    by (simp add: cleanup_def)
  assume nk: "\<not> keep_sessions (fst st)"
  let ?a = "release_stage Encoder st"
  let ?b = "release_stage Prefill ?a"
  have a: "slots_of (fst ?a) = (False, prefill (fst st), decode (fst st))"
    using nk by (rule release_stage_slots)
  have "slots_of (fst ?b) = (encoder (fst ?a), False, decode (fst ?a))"
    using nk by (intro release_stage_slots) simp
  then have b: "slots_of (fst ?b) = (False, False, decode (fst st))"
    using a by (simp add: slots_of_fields)
  have "slots_of (fst (release_stage Decode ?b)) = (encoder (fst ?b), prefill (fst ?b), False)"
    using nk by (intro release_stage_slots) simp
  then show "slots_of (fst (cleanup st)) = (False, False, False)"
    using b nk by (simp add: slots_of_fields cleanup_def)
qed

lemma cleanup_idle:
  "slots_of (fst st) = (False, False, False) \<Longrightarrow> cleanup st = st"
  by (simp add: cleanup_def release_stage_def slots_of_def slot_loaded_def)

lemma cleanup_decode_only:
  "\<not> keep_sessions c \<Longrightarrow> slots_of c = (False, False, True) \<Longrightarrow>
     cleanup (c, evs) = (c\<lparr>decode := False\<rparr>, evs @ [(ReleaseSession Decode, (False, False, True))])"
  by (simp add: cleanup_def release_stage_def slots_of_def slot_loaded_def set_slot_def emit_def)

lemma load_on_demand_idle:
  assumes "slots_of c = (False, False, False)"
  shows "load_on_demand w sl (c, evs) =
     (if create_session_with_fallback w sl
      then Some (set_slot sl True c, evs @ [(CreateSession sl, (False, False, False))])
      else None)"
  using assms by (cases sl) (simp_all add: load_on_demand_def slot_loaded_def slots_of_fields emit_def slots_of_def)

lemma encoder_stage_idle:
  assumes "\<not> keep_sessions c" "slots_of c = (False, False, False)"
  shows "case encoder_stage w mel padded_frames (c, evs) of
           (st1, None) \<Rightarrow> \<not> keep_sessions (fst st1) \<and> (staged evs \<longrightarrow> staged (snd st1))
         | (st1, Some a) \<Rightarrow>
             st1 = (c, evs @ [(CreateSession Encoder, (False, False, False)),
                              (Run Encoder, (True, False, False)),
                              (ReleaseSession Encoder, (True, False, False))])"
proof -
  have c: "encoder c = False" "prefill c = False" "decode c = False"
    using assms(2) by (simp_all add: slots_of_fields)
  have r: "c\<lparr>encoder := True\<rparr>\<lparr>encoder := False\<rparr> = c"
    using c(1) by simp
  show ?thesis
    using assms(1) c r
    by (auto simp add: encoder_stage_def load_on_demand_idle [OF assms(2)] set_slot_def emit_def
        slots_of_def release_stage_def slot_loaded_def Let_def split: option.splits)
qed

lemma prefill_stage_idle:
  assumes "\<not> keep_sessions c" "slots_of c = (False, False, False)"
  shows "case prefill_stage w audio_embeds n_audio (c, evs) of
           (st1, None) \<Rightarrow> \<not> keep_sessions (fst st1) \<and> (staged evs \<longrightarrow> staged (snd st1))
         | (st1, Some a) \<Rightarrow>
             \<not> keep_sessions (fst st1) \<and> slots_of (fst st1) = (False, False, False) \<and>
             snd st1 = evs @ [(CreateSession Prefill, (False, False, False)),
                              (Run Prefill, (False, True, False)),
                              (ReleaseSession Prefill, (False, True, False))]"
proof -
  have c: "encoder c = False" "prefill c = False" "decode c = False"
    using assms(2) by (simp_all add: slots_of_fields)
  show ?thesis
    using assms(1) c
    by (auto simp add: prefill_stage_def load_on_demand_idle [OF assms(2)] set_slot_def emit_def
        slots_of_def release_stage_def slot_loaded_def Let_def split: option.splits)
qed

lemma decode_stage_idle:
  assumes "\<not> keep_sessions c" "slots_of c = (False, False, False)"
  shows "case decode_stage w prompt_len first_token kv (c, evs) of
           (st1, None) \<Rightarrow> \<not> keep_sessions (fst st1) \<and> (staged evs \<longrightarrow> staged (snd st1))
         | (st1, Some g) \<Rightarrow>
             (\<exists>k\<le>1023. st1 = (c\<lparr>decode := True\<rparr>,
                evs @ [(CreateSession Decode, (False, False, False))]
                    @ replicate k (Run Decode, (False, False, True))))"
proof (cases "create_session_with_fallback w Decode \<and> ort_ok w Alloc_decode_token_buf
    \<and> ort_ok w Tensor_decode_token \<and> ort_ok w Tensor_decode_pos")
  case False
  then show ?thesis
    using assms(1)
    by (auto simp add: decode_stage_def load_on_demand_idle [OF assms(2)] set_slot_def)
next
  case True
  have c: "encoder c = False" "prefill c = False" "decode c = False"
    using assms(2) by (simp_all add: slots_of_fields)
  define st where "st = (c\<lparr>decode := True\<rparr>, evs @ [(CreateSession Decode, (False, False, False))])"
  have ds: "decode_stage w prompt_len first_token kv (c, evs)
      = decode_loop w prompt_len 0 first_token [first_token] kv st"
    using True by (simp add: decode_stage_def load_on_demand_idle [OF assms(2)] set_slot_def st_def)
  obtain st' r where res: "decode_loop w prompt_len 0 first_token [first_token] kv st = (st', r)"
    by (cases "decode_loop w prompt_len 0 first_token [first_token] kv st")
  from decode_loop_inv [OF res] obtain k where k: "fst st' = fst st"
      "snd st' = snd st @ replicate k (Run Decode, slots_of (fst st))"
      "k \<le> MAX_NEW_TOKENS - 1 - 0"
    by blast
  have s: "slots_of (fst st) = (False, False, True)"
    using c by (simp add: st_def slots_of_def)
  have st': "st' = (c\<lparr>decode := True\<rparr>,
      evs @ [(CreateSession Decode, (False, False, False))] @ replicate k (Run Decode, (False, False, True)))"
    using k(1,2) s by (simp add: st_def prod_eq_iff)
  have "k \<le> 1023" using k(3) by (simp add: MAX_NEW_TOKENS_def)
  then show ?thesis
    using st' assms(1) by (cases r) (auto simp add: ds res)
qed

lemma transcribe_body_idle:
  assumes "\<not> keep_sessions c" "slots_of c = (False, False, False)"
  shows "\<not> keep_sessions (fst (fst (transcribe_body w c smp n)))
     \<and> staged (snd (fst (transcribe_body w c smp n)))
     \<and> (snd (transcribe_body w c smp n) \<noteq> NoResult \<longrightarrow>
          (\<exists>k\<le>1023. slots_of (fst (fst (transcribe_body w c smp n))) = (False, False, True)
             \<and> snd (fst (transcribe_body w c smp n)) = staged_run k))"
proof (cases "ort_ok w Alloc_generated")
  case False
  then show ?thesis
    using assms by (simp add: transcribe_body_def)
next
  case gen: True
  show ?thesis
  proof (cases "qwen_mel_spectrogram w smp n")
    case None
    then show ?thesis
      using assms gen by (simp add: transcribe_body_def)
  next
    case (Some m)
    obtain mel n_frames where m: "m = (mel, n_frames)" by (cases m)
    define padded where "padded = pad_mel (QWEN_MEL_BINS w) mel n_frames"
    obtain st1 x1 where e: "encoder_stage w (fst padded) (snd padded) (c, []) = (st1, x1)"
      by (cases "encoder_stage w (fst padded) (snd padded) (c, [])")
    note E = encoder_stage_idle [OF assms, where w = w and mel = "fst padded"
        and padded_frames = "snd padded" and evs = "[]", unfolded e]
    show ?thesis
    proof (cases x1)
      case None
      then show ?thesis
        using E gen Some m e by (simp add: transcribe_body_def Let_def flip: padded_def)
    next
      case (Some a)
      obtain audio_embeds n_audio where a: "a = (audio_embeds, n_audio)" by (cases a)
      from E Some have st1: "st1 = (c, [(CreateSession Encoder, (False, False, False)),
          (Run Encoder, (True, False, False)), (ReleaseSession Encoder, (True, False, False))])"
        by simp
      obtain st2 x2 where p: "prefill_stage w audio_embeds n_audio st1 = (st2, x2)"
        by (cases "prefill_stage w audio_embeds n_audio st1")
      note P = prefill_stage_idle [OF assms, where w = w and audio_embeds = audio_embeds
          and n_audio = n_audio and evs = "[(CreateSession Encoder, (False, False, False)),
            (Run Encoder, (True, False, False)), (ReleaseSession Encoder, (True, False, False))]",
          folded st1, unfolded p]
      have body1: "transcribe_body w c smp n =
          (case (st2, x2) of (st2, None) \<Rightarrow> (st2, NoResult)
           | (st2, Some (prompt_len, first_token, kv)) \<Rightarrow>
               (case decode_stage w prompt_len first_token kv st2 of
                  (st3, None) \<Rightarrow> (st3, NoResult)
                | (st3, Some generated) \<Rightarrow>
                    (st3, case detokenize (tokenizer c) (QWEN_TOKEN_ASR_TEXT w) generated of
                            None \<Rightarrow> TextOverrun | Some text \<Rightarrow> Text text)))"
        using gen \<open>qwen_mel_spectrogram w smp n = Some m\<close> m e Some a p
        by (simp add: transcribe_body_def Let_def flip: padded_def)
      show ?thesis
      proof (cases x2)
        case None
        then show ?thesis
          using P st1 by (simp add: body1)
      next
        case (Some b)
        obtain prompt_len first_token kv where b: "b = (prompt_len, first_token, kv)"
          by (cases b)
        from P Some have st2: "\<not> keep_sessions (fst st2)" "slots_of (fst st2) = (False, False, False)"
            "snd st2 = [(CreateSession Encoder, (False, False, False)),
               (Run Encoder, (True, False, False)), (ReleaseSession Encoder, (True, False, False))]
              @ [(CreateSession Prefill, (False, False, False)), (Run Prefill, (False, True, False)),
                 (ReleaseSession Prefill, (False, True, False))]"
          by (simp_all add: st1)
        obtain st3 x3 where d: "decode_stage w prompt_len first_token kv st2 = (st3, x3)"
          by (cases "decode_stage w prompt_len first_token kv st2")
        note D = decode_stage_idle [OF st2(1,2), where w = w and prompt_len = prompt_len
            and first_token = first_token and kv = kv and evs = "snd st2", simplified, unfolded d]
        show ?thesis
        proof (cases x3)
          case None
          then show ?thesis
            using D d Some b st2(3) by (simp add: body1)
        next
          case g: (Some generated)
          from D g obtain k where k: "k \<le> 1023"
              "st3 = ((fst st2)\<lparr>decode := True\<rparr>,
                 snd st2 @ (CreateSession Decode, (False, False, False))
                   # replicate k (Run Decode, (False, False, True)))"
            by auto
          have "slots_of (fst st3) = (False, False, True)"
            using k(2) st2(2) by (simp add: slots_of_def)
          moreover have "snd st3 = staged_run k"
            using k(2) st2(3) by (simp add: staged_run_def)
          moreover have "\<not> keep_sessions (fst st3)"
            using k(2) st2(1) by simp
          moreover have "staged (staged_run k)"
            by (simp add: staged_run_def)
          ultimately show ?thesis
            using d g Some b k(1) by (auto simp add: body1 split: option.splits)
        qed
      qed
    qed
  qed
qed

lemma argmax_loop_replicate_last:
  assumes "f32_gt x z"
  shows "1 \<le> i \<Longrightarrow> i \<le> n \<Longrightarrow> argmax_loop (replicate n z @ [x]) (Suc n) i 0 z = n"
proof (induction "n - i" arbitrary: i)
  case 0
  then have "i = n" by simp
  then show ?case
    using assms
    by (simp add: argmax_loop.simps [of _ "Suc n" n] argmax_loop.simps [of _ "Suc n" "Suc n"] nth_append)
next
  case (Suc k)
  then have lt: "i < n" by simp
  have nz: "\<not> f32_gt z z" by (simp add: f32_gt_def)
  have "argmax_loop (replicate n z @ [x]) (Suc n) i 0 z = argmax_loop (replicate n z @ [x]) (Suc n) (i + 1) 0 z"
    using lt nz by (subst argmax_loop.simps) (simp add: nth_append)
  also have "\<dots> = n"
    using Suc.hyps(2) lt by (intro Suc.hyps(1)) simp_all
  finally show ?case .
qed

lemma argmax_f32_replicate_last:
  "f32_gt x z \<Longrightarrow> 0 < n \<Longrightarrow> m = Suc n \<Longrightarrow> argmax_f32 (replicate n z @ [x]) m = n"
  using argmax_loop_replicate_last [of x z 1 n]
  by (cases n) (simp_all add: argmax_f32_def nth_append)

text \<open>
  Claim C5. A context with \<open>keep_sessions = false\<close> has its three slots absent between
  calls: the loader leaves them so and every call returns them so. For such a context,
  whatever the call meets: each run of the encoder session happens with only the encoder
  slot loaded, each run of the prefill session with only the prefill slot loaded, each
  run of the decode session with only the decode slot loaded (\<open>staged\<close>); the call
  returns with the three slots absent, on the early return, on every jump to
  \<^verbatim>\<open>cleanup\<close> and at the end; and a call that yields a text went through exactly
  load, run, release of the encoder, load, run, release of the prefill, load of the
  decode session, \<open>k \<le> 1023\<close> runs of it and its release.
\<close>

theorem session_lifecycle_staged:
  assumes "\<not> keep_sessions c" "slots_of c = (False, False, False)"
  shows "case qwen_onnx_transcribe w (Some c) samples n_samples of
     (r, c', evs) \<Rightarrow>
        staged evs \<and> (\<exists>c''. c' = Some c'' \<and> slots_of c'' = (False, False, False)) \<and>
        (r \<noteq> NoResult \<longrightarrow>
           (\<exists>k\<le>1023. evs = staged_run k @ [(ReleaseSession Decode, (False, False, True))]))"
proof (cases "samples = None \<or> n_samples \<le> 0")
  case True
  then show ?thesis
    using assms(2) by (auto simp add: qwen_onnx_transcribe_def split: option.splits)
next
  case False
  then obtain smp where smp: "samples = Some smp" "\<not> n_samples \<le> 0" by auto
  obtain st r where b: "transcribe_body w c smp n_samples = (st, r)"
    by (cases "transcribe_body w c smp n_samples")
  from transcribe_body_idle [OF assms, of w smp n_samples]
  have B: "\<not> keep_sessions (fst st)" "staged (snd st)"
      "r \<noteq> NoResult \<longrightarrow> (\<exists>k\<le>1023. slots_of (fst st) = (False, False, True) \<and> snd st = staged_run k)"
    by (simp_all add: b)
  have t: "qwen_onnx_transcribe w (Some c) samples n_samples = (r, Some (fst (cleanup st)), snd (cleanup st))"
    using smp by (simp add: qwen_onnx_transcribe_def b Let_def)
  have 1: "staged (snd (cleanup st))"
    using B(2) by (simp add: cleanup_props)
  have 2: "slots_of (fst (cleanup st)) = (False, False, False)"
    using B(1) by (rule cleanup_props)
  have 3: "\<exists>k\<le>1023. snd (cleanup st) = staged_run k @ [(ReleaseSession Decode, (False, False, True))]"
    if "r \<noteq> NoResult"
  proof -
    from B(3) that obtain k where k: "k \<le> 1023" "slots_of (fst st) = (False, False, True)"
        "snd st = staged_run k"
      by blast
    have "cleanup st = cleanup (fst st, snd st)" by simp
    also have "\<dots> = ((fst st)\<lparr>decode := False\<rparr>,
        snd st @ [(ReleaseSession Decode, (False, False, True))])"
      using B(1) k(2) by (rule cleanup_decode_only)
    finally have "snd (cleanup st) = snd st @ [(ReleaseSession Decode, (False, False, True))]"
      by simp
    then have "snd (cleanup st) = staged_run k @ [(ReleaseSession Decode, (False, False, True))]"
      by (simp only: k(3))
    with k(1) show ?thesis by blast
  qed
  show ?thesis
    using 1 2 3 by (simp add: t)
qed

theorem session_lifecycle_staged_witness:
  "qwen_onnx_transcribe demo_ort (Some demo_ctx) (Some [0]) 1
     = (NoResult, Some (demo_ctx\<lparr>n_layers := 2\<rparr>),
        staged_run 3 @ [(ReleaseSession Decode, (False, False, True))])
   \<and> qwen_onnx_transcribe demo_eos_ort (Some demo_eos_ctx) (Some [0]) 1
     = (Text [], Some (demo_eos_ctx\<lparr>n_layers := 2\<rparr>),
        staged_run 0 @ [(ReleaseSession Decode, (False, False, True))])"
proof -
  have failing: "qwen_onnx_transcribe demo_ort (Some demo_ctx) (Some [0]) 1
     = (NoResult, Some (demo_ctx\<lparr>n_layers := 2\<rparr>),
        staged_run 3 @ [(ReleaseSession Decode, (False, False, True))])"
    using session_lifecycle_staged [of demo_ctx demo_ort "Some [0]" 1]
    by (simp add: demo_ctx_def demo_ort_def qwen_onnx_transcribe_def transcribe_body_def
      encoder_stage_def prefill_stage_def decode_stage_def load_on_demand_def release_stage_def
      cleanup_def slot_loaded_def set_slot_def slots_of_def emit_def staged_run_def Let_def
      decode_loop.simps is_eos_iff argmax_f32_def argmax_loop.simps f32_gt_def f32_is_nan_def
      f32_exp_def f32_mant_def f32_ord_def f32_mag_def f32_sign_def N_PREFIX_def N_SUFFIX_def MAX_NEW_TOKENS_def
      numeral_3_eq_3)
  have am: "argmax_f32 (replicate 151645 0 @ [0x3F800000]) 151646 = 151645"
    by (rule argmax_f32_replicate_last)
      (simp_all add: f32_gt_def f32_is_nan_def f32_exp_def f32_mant_def f32_ord_def f32_mag_def f32_sign_def)
  have ending: "qwen_onnx_transcribe demo_eos_ort (Some demo_eos_ctx) (Some [0]) 1
     = (Text [], Some (demo_eos_ctx\<lparr>n_layers := 2\<rparr>),
        staged_run 0 @ [(ReleaseSession Decode, (False, False, True))])"
    using session_lifecycle_staged [of demo_eos_ctx demo_eos_ort "Some [0]" 1]
    by (simp add: demo_eos_ctx_def demo_eos_ort_def demo_ctx_def demo_ort_def qwen_onnx_transcribe_def
        transcribe_body_def
      encoder_stage_def prefill_stage_def decode_stage_def load_on_demand_def release_stage_def
      cleanup_def slot_loaded_def set_slot_def slots_of_def emit_def staged_run_def Let_def
      decode_loop.simps is_eos_iff am N_PREFIX_def N_SUFFIX_def MAX_NEW_TOKENS_def
      detokenize_def strip_eos.simps trim_def)
  from failing ending show ?thesis by (rule conjI)
qed

section \<open>Greedy choice of the tokens\<close>



lemma first_max_index_unique:
  "first_max_index data r \<Longrightarrow> first_max_index data r' \<Longrightarrow> r = r'"
  by (metis first_max_index_def linorder_neqE_nat)




lemma set_slot_fields [simp]:
  "embed_tokens_fp16 (set_slot s v c) = embed_tokens_fp16 c"
  "hidden_dim (set_slot s v c) = hidden_dim c"
  "vocab_size (set_slot s v c) = vocab_size c"
  by (cases s; simp add: set_slot_def)+

lemma release_stage_fields [simp]:
  "embed_tokens_fp16 (fst (release_stage s st)) = embed_tokens_fp16 (fst st)"
  "hidden_dim (fst (release_stage s st)) = hidden_dim (fst st)"
  "vocab_size (fst (release_stage s st)) = vocab_size (fst st)"
  by (simp_all add: release_stage_def)














end
